theory Spec2Isabelle
  imports Main "HOL-Library.Word"
begin

unbundle bit_operations_syntax

section \<open>Squashfs extended attributes: the data model\<close>

text \<open>
  The embedding follows the xattr code of
  \<^verbatim>\<open>src/include/net/netfilter/nf_conntrack_timeout.h\<close> (lines 135 to 373).
  C \<^verbatim>\<open>int\<close> results that are "negative errno or a count" are values of
  \<open>errno + nat\<close>: \<open>Inl e\<close> is \<^verbatim>\<open>-e\<close>, \<open>Inr n\<close> is the non-negative \<open>n\<close>.
\<close>

type_synonym byte = "8 word"

datatype errno = EIO | ENOMEM | ENODATA | ERANGE

type_synonym ret = "errno + nat"

text \<open>
  \<^verbatim>\<open>squashfs_read_metadata(sb, buf, &block, &offset, length)\<close> is not part of the
  file. It is taken as a parameter of the model: given the cursor \<open>(block, offset)\<close> and a
  length it either fails with an errno, or delivers the bytes it read (their number is
  the C return value) and the advanced cursor.
\<close>

datatype rd_result = Rd_fail errno | Rd_ok "byte list" "64 word" int

text \<open>
  The environment of one call: the super block (its metadata reader and its
  \<^verbatim>\<open>xattr_table\<close> start), the allocator's answers (\<open>kmalloc_ok k n\<close>: does the
  \<open>k\<close>-th allocation of the run, of \<open>n\<close> bytes, succeed) and the answer of
  \<^verbatim>\<open>capable(CAP_SYS_ADMIN)\<close>.
\<close>

record fs_env =
  read_metadata :: "64 word \<Rightarrow> int \<Rightarrow> nat \<Rightarrow> rd_result"
  xattr_table :: "64 word"
  kmalloc_ok :: "nat \<Rightarrow> nat \<Rightarrow> bool"
  capable :: bool

text \<open>
  The allocator: \<open>live\<close> counts the buffers allocated and not yet freed, \<open>calls\<close> the
  allocations asked for so far. A buffer pointer is \<open>None\<close> (\<^verbatim>\<open>NULL\<close>) or \<open>Some\<close>
  of the buffer's contents; the iterator is the only owner of its two buffers.
\<close>

record kmem =
  live :: int
  calls :: nat

definition kmalloc :: "fs_env \<Rightarrow> nat \<Rightarrow> kmem \<Rightarrow> byte list option \<times> kmem" where
  "kmalloc E n m =
     (if kmalloc_ok E (calls m) n
      then (Some (replicate n 0), m\<lparr>live := live m + 1, calls := calls m + 1\<rparr>)
      else (None, m\<lparr>calls := calls m + 1\<rparr>))"

definition kfree :: "byte list option \<Rightarrow> kmem \<Rightarrow> kmem" where
  "kfree p m = (case p of None \<Rightarrow> m | Some b \<Rightarrow> m\<lparr>live := live m - 1\<rparr>)"

text \<open>
  \<^verbatim>\<open>struct squashfs_xattr_iterator\<close>. The field \<^verbatim>\<open>value\<close> is \<open>value_buf\<close> here, and
  \<^verbatim>\<open>sb\<close> is the environment. \<^verbatim>\<open>remaining_bytes\<close> is an \<^verbatim>\<open>unsigned int\<close>.
\<close>

record squashfs_xattr_iterator =
  name_len :: nat
  value_len :: nat
  name :: "byte list option"
  value_buf :: "byte list option"
  block :: "64 word"
  offset :: int
  remaining_bytes :: "32 word"

type_synonym iter_state = "squashfs_xattr_iterator \<times> kmem"

text \<open>
  \<^verbatim>\<open>le32_to_cpu\<close> of a field that lies in the first four bytes of \<open>bs\<close>.
  \<^verbatim>\<open>struct squashfs_xattr_entry\<close> (8 bytes: \<^verbatim>\<open>name_len\<close>, then \<^verbatim>\<open>value_len\<close>) and
  \<^verbatim>\<open>struct squashfs_xattr_header\<close> (4 bytes: \<^verbatim>\<open>size\<close>) are declared outside the file;
  their layout is the one the specification gives.
\<close>

fun le32_to_cpu :: "byte list \<Rightarrow> 32 word" where
  "le32_to_cpu (b0 # b1 # b2 # b3 # bs) =
     word_of_nat (unat b0 + 256 * unat b1 + 65536 * unat b2 + 16777216 * unat b3)"
| "le32_to_cpu bs = 0"

text \<open>
  \<^verbatim>\<open>strncmp\<close> of the C library on two strings. A string is the list of its bytes; past
  the end of the list the terminating \<^verbatim>\<open>NUL\<close> is read (every buffer the code passes ends
  with one). The result is the kernel's: \<open>-1\<close>, \<open>0\<close> or \<open>1\<close>.
\<close>

fun strncmp :: "byte list \<Rightarrow> byte list \<Rightarrow> nat \<Rightarrow> int" where
  "strncmp cs ct 0 = 0"
| "strncmp cs ct (Suc count) =
     (let c1 = (case cs of [] \<Rightarrow> 0 | c # cs' \<Rightarrow> c);
          c2 = (case ct of [] \<Rightarrow> 0 | c # ct' \<Rightarrow> c)
      in if c1 \<noteq> c2 then (if c1 < c2 then - 1 else 1)
         else if c1 = 0 then 0
         else strncmp (tl cs) (tl ct) count)"

text \<open>\<^verbatim>\<open>XATTR_TRUSTED_PREFIX\<close> is \<^verbatim>\<open>"trusted."\<close> and \<^verbatim>\<open>XATTR_TRUSTED_PREFIX_LEN\<close> is 8.\<close>

definition XATTR_TRUSTED_PREFIX :: "byte list" where
  "XATTR_TRUSTED_PREFIX = [0x74, 0x72, 0x75, 0x73, 0x74, 0x65, 0x64, 0x2E]"

definition XATTR_TRUSTED_PREFIX_LEN :: nat where
  "XATTR_TRUSTED_PREFIX_LEN = 8"

section \<open>The entry iterator\<close>

definition xattr_iterator_release_buffer :: "iter_state \<Rightarrow> iter_state" where
  "xattr_iterator_release_buffer s =
     (let (iter, m) = s;
          m = kfree (name iter) m;
          iter = iter\<lparr>name := None\<rparr>;
          m = kfree (value_buf iter) m;
          iter = iter\<lparr>value_buf := None\<rparr>
      in (iter, m))"

text \<open>
  \<^verbatim>\<open>xattr_iterator_read_next\<close>: \<open>Inr 1\<close> when an entry was decoded, \<open>Inr 0\<close> when there
  is none, \<open>Inl e\<close> on error. Every \<^verbatim>\<open>return\<close> of the C function is one branch.
\<close>

definition xattr_iterator_read_next :: "fs_env \<Rightarrow> iter_state \<Rightarrow> ret \<times> iter_state" where
  "xattr_iterator_read_next E s =
     (let (iter, m) = s in
      if remaining_bytes iter = 0 then (Inr 0, (iter, m))
      else if remaining_bytes iter < 8 then (Inl EIO, (iter, m))
      else
       (case read_metadata E (block iter) (offset iter) 8 of
          Rd_fail e \<Rightarrow> (Inl e, (iter, m))
        | Rd_ok entry b off \<Rightarrow>
           (let iter = iter\<lparr>block := b, offset := off\<rparr> in
            if length entry < 8 then (Inr 0, (iter, m))
            else
             (let iter = iter\<lparr>remaining_bytes := remaining_bytes iter - 8\<rparr>;
                  iter = iter\<lparr>name_len := unat (le32_to_cpu entry)\<rparr>;
                  iter = iter\<lparr>value_len := unat (le32_to_cpu (drop 4 entry))\<rparr>
              in
              if name_len iter > 4096 \<or> value_len iter > 65536 then (Inl EIO, (iter, m))
              else
               (let total_len = (word_of_nat (name_len iter + value_len iter) :: 32 word) in
                if total_len > remaining_bytes iter then (Inl EIO, (iter, m))
                else
                 (let (p, m) = kmalloc E (name_len iter + 1) m;
                      iter = iter\<lparr>name := p\<rparr>
                  in
                  if name iter = None then (Inl ENOMEM, (iter, m))
                  else
                   (let (q, m) = kmalloc E (value_len iter) m;
                        iter = iter\<lparr>value_buf := q\<rparr>
                    in
                    if value_buf iter = None then (Inl ENOMEM, (iter, m))
                    else
                     (case read_metadata E (block iter) (offset iter) (name_len iter) of
                        Rd_fail e \<Rightarrow> (Inl e, (iter, m))
                      | Rd_ok nm b off \<Rightarrow>
                         (let iter = iter\<lparr>block := b, offset := off\<rparr> in
                          if length nm < name_len iter then (Inl EIO, (iter, m))
                          else
                           (let iter = iter\<lparr>name := Some (take (name_len iter) nm @ [0])\<rparr> in
                            (case read_metadata E (block iter) (offset iter) (value_len iter) of
                               Rd_fail e \<Rightarrow> (Inl e, (iter, m))
                             | Rd_ok vl b off \<Rightarrow>
                                (let iter = iter\<lparr>block := b, offset := off\<rparr> in
                                 if length vl < value_len iter then (Inl EIO, (iter, m))
                                 else
                                  (let iter = iter\<lparr>value_buf := Some (take (value_len iter) vl)\<rparr>;
                                       iter = iter\<lparr>remaining_bytes := remaining_bytes iter - total_len\<rparr>
                                   in (Inr 1, (iter, m)))))))))))))))"

text \<open>
  \<^verbatim>\<open>squashfs_xattr_iterator_start\<close>. \<open>xattr\<close> is the inode's locator, a C \<^verbatim>\<open>int\<close>:
  \<^verbatim>\<open>xattr >> 13\<close> is the arithmetic shift of the signed value, and its sum with the
  64-bit table start is taken in 64 bits (the shifted value is sign-extended).
\<close>

definition iter0 :: squashfs_xattr_iterator where
  "iter0 = \<lparr>name_len = 0, value_len = 0, name = None, value_buf = None,
            block = 0, offset = 0, remaining_bytes = 0\<rparr>"

definition squashfs_xattr_iterator_start ::
  "fs_env \<Rightarrow> 32 word \<Rightarrow> ret \<times> squashfs_xattr_iterator" where
  "squashfs_xattr_iterator_start E xattr =
     (let iter = iter0 in
      if xattr = - 1 \<or> xattr_table E = - 1 then (Inr 0, iter)
      else
        let iter = iter\<lparr>block := xattr_table E + scast (signed_drop_bit 13 xattr)\<rparr>;
            iter = iter\<lparr>offset := sint (xattr AND 8191)\<rparr>
        in
         (case read_metadata E (block iter) (offset iter) 4 of
            Rd_fail e \<Rightarrow> (Inl e, iter)
          | Rd_ok xattr_header b off \<Rightarrow>
             (let iter = iter\<lparr>block := b, offset := off\<rparr> in
              if length xattr_header < 4 then (Inl EIO, iter)
              else (Inr 1, iter\<lparr>remaining_bytes := le32_to_cpu xattr_header - 4\<rparr>))))"

definition squashfs_xattr_iterator_next :: "fs_env \<Rightarrow> iter_state \<Rightarrow> ret \<times> iter_state" where
  "squashfs_xattr_iterator_next E s = xattr_iterator_read_next E (xattr_iterator_release_buffer s)"

definition squashfs_xattr_iterator_end :: "iter_state \<Rightarrow> iter_state" where
  "squashfs_xattr_iterator_end s = xattr_iterator_release_buffer s"

definition filtered :: "fs_env \<Rightarrow> byte list \<Rightarrow> bool" where
  "filtered E name' =
     (if capable E then False
      else strncmp name' XATTR_TRUSTED_PREFIX XATTR_TRUSTED_PREFIX_LEN \<noteq> 0)"

section \<open>Termination measure of the query loops\<close>

text \<open>
  Both query loops run \<^verbatim>\<open>while ((err = squashfs_xattr_iterator_next(&iter)) == 1)\<close>.
  A step that returns 1 takes \<open>8 + name_len + value_len\<close> bytes off
  \<^verbatim>\<open>remaining_bytes\<close> without wrapping, which is the measure of the two loops below.
\<close>

lemma budget_arith:
  fixes r a b :: "32 word"
  assumes a: "\<not> 4096 < unat a" and b: "\<not> 65536 < unat b"
    and r8: "\<not> r < 8" and le: "\<not> r - 8 < a + b"
  shows "unat (r - 8 - (a + b)) + (8 + (unat a + unat b)) = unat r"
proof -
  have un: "unat (a + b) = unat a + unat b" using a b by (simp add: unat_word_ariths)
  have r8': "8 \<le> unat r" using r8 by (simp add: word_less_nat_alt)
  have u8: "unat (r - 8) = unat r - 8" using r8 by (simp add: unat_sub not_less)
  have le': "a + b \<le> r - 8" using le by (simp add: not_less)
  then have "unat a + unat b \<le> unat (r - 8)" using un by (simp add: word_le_nat_alt)
  moreover have "unat (r - 8 - (a + b)) = unat (r - 8) - (unat a + unat b)"
    using le' un by (simp add: unat_sub)
  ultimately show ?thesis using u8 r8' by simp
qed

lemma read_next_budget:
  assumes "xattr_iterator_read_next E s = (Inr (Suc 0), s')"
  shows "unat (remaining_bytes (fst s')) + 8 + name_len (fst s') + value_len (fst s')
           = unat (remaining_bytes (fst s))"
proof -
  obtain iter m where s: "s = (iter, m)" by (cases s)
  show ?thesis
    using assms unfolding s xattr_iterator_read_next_def
    by (auto simp add: Let_def budget_arith add.assoc
             split: if_splits rd_result.splits prod.splits)
qed

lemma release_remaining:
  "remaining_bytes (fst (xattr_iterator_release_buffer s)) = remaining_bytes (fst s)"
  by (simp add: xattr_iterator_release_buffer_def Let_def split: prod.splits)

lemma next_budget:
  assumes "squashfs_xattr_iterator_next E s = (Inr (Suc 0), s')"
  shows "unat (remaining_bytes (fst s')) + 8 + name_len (fst s') + value_len (fst s')
           = unat (remaining_bytes (fst s))"
  using read_next_budget[OF assms[unfolded squashfs_xattr_iterator_next_def]]
  by (simp add: release_remaining)

lemma next_decreases:
  assumes "(Inr (Suc 0), iter', m') = squashfs_xattr_iterator_next E (iter, m)"
  shows "unat (remaining_bytes iter') < unat (remaining_bytes iter)"
  using next_budget[of E "(iter, m)" "(iter', m')"] assms by simp

section \<open>The query operations\<close>

text \<open>
  The caller's buffer is the byte array \<open>buf\<close> and the index \<open>pos\<close> the pointer has
  reached in it (\<^verbatim>\<open>buffer += count\<close> is \<open>pos + count\<close>). \<open>memcpy dst pos src n\<close> copies
  the first \<open>n\<close> bytes of \<open>src\<close> to \<open>dst\<close> from index \<open>pos\<close> on. The callers keep
  \<^verbatim>\<open>size\<close> within the array; what C does beyond it is not modelled.
\<close>

definition memcpy :: "byte list \<Rightarrow> nat \<Rightarrow> byte list \<Rightarrow> nat \<Rightarrow> byte list" where
  "memcpy dst pos src n = take pos dst @ take n src @ drop (pos + n) dst"

text \<open>
  The loop of \<^verbatim>\<open>squashfs_listxattr\<close>; it returns \<^verbatim>\<open>err\<close>, \<^verbatim>\<open>written\<close>, the buffer and
  the iterator at the loop's exit.
\<close>

function list_loop ::
  "fs_env \<Rightarrow> iter_state \<Rightarrow> nat \<Rightarrow> byte list option \<Rightarrow> nat \<Rightarrow> nat
     \<Rightarrow> ret \<times> nat \<times> byte list option \<times> iter_state" where
  "list_loop E s written buffer pos size' =
     (let (err, s') = squashfs_xattr_iterator_next E s in
      if err = Inr 1 then
        (let iter = fst s'; count = name_len iter + 1 in
         if filtered E (the (name iter)) then list_loop E s' written buffer pos size'
         else
          (let written = written + count in
           (case buffer of
              None \<Rightarrow> list_loop E s' written buffer pos size'
            | Some buf \<Rightarrow>
               if size' < count then (Inl ERANGE, written, buffer, s')
               else
                (let buf = memcpy buf pos (the (name iter)) (name_len iter);
                     buf = buf[pos + name_len iter := 0]
                 in list_loop E s' written (Some buf) (pos + count) (size' - count)))))
      else (err, written, buffer, s'))"
  by pat_completeness auto
termination
  by (relation "measure (\<lambda>(E, s, written, buffer, pos, size'). unat (remaining_bytes (fst s)))")
     (auto dest: next_decreases)

declare list_loop.simps [simp del]

text \<open>
  \<^verbatim>\<open>squashfs_listxattr\<close> on the inode's locator \<open>xattr\<close>; the result is the returned
  \<^verbatim>\<open>ssize_t\<close>, the buffer and the allocator after the call.
\<close>

definition squashfs_listxattr ::
  "fs_env \<Rightarrow> 32 word \<Rightarrow> byte list option \<Rightarrow> nat \<Rightarrow> kmem \<Rightarrow> ret \<times> byte list option \<times> kmem" where
  "squashfs_listxattr E xattr buffer size' m =
     (let (err, iter) = squashfs_xattr_iterator_start E xattr in
      (case err of
         Inl e \<Rightarrow> (err, buffer, m)
       | Inr n \<Rightarrow>
          if n = 0 then (err, buffer, m)
          else
           (let (err, written, buffer, s) = list_loop E (iter, m) 0 buffer 0 size';
                (iter, m) = squashfs_xattr_iterator_end s
            in ((case err of Inl e \<Rightarrow> Inl e | Inr k \<Rightarrow> Inr written), buffer, m))))"

text \<open>
  The loop of \<^verbatim>\<open>squashfs_getxattr\<close>, with the code at \<^verbatim>\<open>goto found\<close> and the fall
  through to the label \<^verbatim>\<open>notfound\<close>; it returns \<^verbatim>\<open>err\<close>, the buffer and the iterator.
\<close>

function get_loop ::
  "fs_env \<Rightarrow> iter_state \<Rightarrow> byte list \<Rightarrow> byte list option \<Rightarrow> nat
     \<Rightarrow> ret \<times> byte list option \<times> iter_state" where
  "get_loop E s name' buffer size' =
     (let (err, s') = squashfs_xattr_iterator_next E s in
      if err = Inr 1 then
        (let iter = fst s' in
         if strncmp name' (the (name iter)) (name_len iter) \<noteq> 0
         then get_loop E s' name' buffer size'
         else
          (case buffer of
             None \<Rightarrow> (Inr (value_len iter), buffer, s')
           | Some buf \<Rightarrow>
              if size' < value_len iter then (Inl ERANGE, buffer, s')
              else (Inr (value_len iter),
                    Some (memcpy buf 0 (the (value_buf iter)) (value_len iter)), s')))
      else (Inl ENODATA, buffer, s'))"
  by pat_completeness auto
termination
  by (relation "measure (\<lambda>(E, s, name', buffer, size'). unat (remaining_bytes (fst s)))")
     (auto dest: next_decreases)

declare get_loop.simps [simp del]

definition squashfs_getxattr ::
  "fs_env \<Rightarrow> 32 word \<Rightarrow> byte list \<Rightarrow> byte list option \<Rightarrow> nat \<Rightarrow> kmem
     \<Rightarrow> ret \<times> byte list option \<times> kmem" where
  "squashfs_getxattr E xattr name' buffer size' m =
     (let (err, iter) = squashfs_xattr_iterator_start E xattr in
      (case err of
         Inl e \<Rightarrow> (err, buffer, m)
       | Inr n \<Rightarrow>
          (let (err, buffer, s) =
                 (if n = 0 then (Inl ENODATA, buffer, (iter, m))
                  else get_loop E (iter, m) name' buffer size');
               (iter, m) = squashfs_xattr_iterator_end s
           in (err, buffer, m))))"

section \<open>An in-memory metadata reader and the on-disk encoding\<close>

text \<open>
  Modelled from the spec: the Metadata Cursor (\<^verbatim>\<open>squashfs_read_metadata\<close>, outside the
  file) over an uncompressed image. Metadata blocks hold 8192 bytes, so the cursor
  \<open>(block, offset)\<close> stands at byte \<open>8192 * block + offset\<close> of the image; a read
  delivers up to \<open>len\<close> bytes, fewer only at the end of the image, and advances the
  offset by what it delivered.
\<close>

definition flat_read :: "byte list \<Rightarrow> 64 word \<Rightarrow> int \<Rightarrow> nat \<Rightarrow> rd_result" where
  "flat_read img b off len =
     (let d = take len (drop (8192 * unat b + nat off) img)
      in Rd_ok d b (off + int (length d)))"

definition flat_env :: "byte list \<Rightarrow> 64 word \<Rightarrow> bool \<Rightarrow> fs_env" where
  "flat_env img tbl cap =
     \<lparr>read_metadata = flat_read img, xattr_table = tbl,
      kmalloc_ok = (\<lambda>k n. True), capable = cap\<rparr>"

definition mem0 :: kmem where
  "mem0 = \<lparr>live = 0, calls = 0\<rparr>"

text \<open>
  Modelled from the spec: the on-disk encoding of an attribute set (section 6): the 4-byte
  little-endian \<^verbatim>\<open>total_size\<close>, which counts itself, then per entry \<^verbatim>\<open>name_len\<close>,
  \<^verbatim>\<open>value_len\<close>, the name bytes and the value bytes, without padding.
\<close>

definition cpu_to_le32 :: "32 word \<Rightarrow> byte list" where
  "cpu_to_le32 w = [ucast w, ucast (drop_bit 8 w), ucast (drop_bit 16 w), ucast (drop_bit 24 w)]"

type_synonym entry = "byte list \<times> byte list"

definition encode_entry :: "entry \<Rightarrow> byte list" where
  "encode_entry e =
     cpu_to_le32 (word_of_nat (length (fst e))) @ cpu_to_le32 (word_of_nat (length (snd e)))
       @ fst e @ snd e"

definition entry_size :: "entry \<Rightarrow> nat" where
  "entry_size e = 8 + length (fst e) + length (snd e)"

definition encode_entries :: "entry list \<Rightarrow> byte list" where
  "encode_entries es = concat (map encode_entry es)"

definition entries_size :: "entry list \<Rightarrow> nat" where
  "entries_size es = sum_list (map entry_size es)"

definition encode_set :: "entry list \<Rightarrow> byte list" where
  "encode_set es = cpu_to_le32 (word_of_nat (4 + entries_size es)) @ encode_entries es"

text \<open>
  A well-formed attribute set: every entry within the per-field bounds and the total
  size representable in the header.
\<close>

definition entries_ok :: "entry list \<Rightarrow> bool" where
  "entries_ok es = list_all (\<lambda>e. length (fst e) \<le> 4096 \<and> length (snd e) \<le> 65536) es"

definition well_formed :: "entry list \<Rightarrow> bool" where
  "well_formed es = (entries_ok es \<and> 4 + entries_size es < 2 ^ 32)"

text \<open>
  \<open>stream_at img iter xs\<close>: the cursor of \<open>iter\<close> stands in the image \<open>img\<close> where
  exactly the bytes \<open>xs\<close> are still to come.
\<close>

definition stream_at :: "byte list \<Rightarrow> squashfs_xattr_iterator \<Rightarrow> byte list \<Rightarrow> bool" where
  "stream_at img iter xs =
     (0 \<le> offset iter \<and> drop (8192 * unat (block iter) + nat (offset iter)) img = xs)"

text \<open>
  What the loop of \<^verbatim>\<open>squashfs_listxattr\<close> does with a decoded entry, for the proofs about
  the code: \<open>kept E e\<close> when the code's \<^verbatim>\<open>filtered\<close> answers 0 on the name as the iterator
  holds it (with its terminator), \<open>kept_size\<close> and \<open>kept_names\<close> the bytes such entries
  contribute. These say what the code does, not what the specification asks for.
\<close>

definition kept :: "fs_env \<Rightarrow> entry \<Rightarrow> bool" where
  "kept E e = (\<not> filtered E (fst e @ [0]))"

definition kept_size :: "fs_env \<Rightarrow> entry list \<Rightarrow> nat" where
  "kept_size E es = sum_list (map (\<lambda>e. length (fst e) + 1) (filter (kept E) es))"

definition kept_names :: "fs_env \<Rightarrow> entry list \<Rightarrow> byte list" where
  "kept_names E es = concat (map (\<lambda>e. fst e @ [0]) (filter (kept E) es))"

text \<open>
  The namespace filter of the specification (section 4.5): an entry is skipped when its
  name lies in the privileged namespace, the prefix \<open>trusted.\<close>, and the caller lacks
  elevated privilege; every other name passes, and with elevated privilege all pass.
  \<open>spec_required\<close> is the size List is specified to report, \<open>spec_listing\<close> the bytes
  it is specified to write.
\<close>

definition in_trusted_namespace :: "byte list \<Rightarrow> bool" where
  "in_trusted_namespace nm = (take 8 nm = XATTR_TRUSTED_PREFIX)"

definition spec_passes :: "bool \<Rightarrow> entry \<Rightarrow> bool" where
  "spec_passes privileged e = (if in_trusted_namespace (fst e) then privileged else True)"

definition spec_required :: "bool \<Rightarrow> entry list \<Rightarrow> nat" where
  "spec_required privileged es =
     sum_list (map (\<lambda>e. length (fst e) + 1) (filter (spec_passes privileged) es))"

definition spec_listing :: "bool \<Rightarrow> entry list \<Rightarrow> byte list" where
  "spec_listing privileged es =
     concat (map (\<lambda>e. fst e @ [0]) (filter (spec_passes privileged) es))"

text \<open>
  The byte of the image at which the locator \<open>xattr\<close> of an inode seats the cursor, as
  \<^verbatim>\<open>squashfs_xattr_iterator_start\<close> computes block and offset.
\<close>

definition locator_pos :: "64 word \<Rightarrow> 32 word \<Rightarrow> nat" where
  "locator_pos tbl xattr =
     8192 * unat (tbl + scast (signed_drop_bit 13 xattr)) + unat (xattr AND 8191)"

text \<open>
  The comparison the lookup is specified to make: over \<open>name_len\<close> bytes, of the two names
  read as C strings (up to their first \<^verbatim>\<open>NUL\<close>).
\<close>

definition cstring :: "byte list \<Rightarrow> byte list" where
  "cstring s = takeWhile (\<lambda>c. c \<noteq> 0) s"

definition name_matches :: "byte list \<Rightarrow> byte list \<Rightarrow> bool" where
  "name_matches query_name nm =
     (take (length nm) (cstring query_name) = take (length nm) (cstring nm))"

text \<open>
  What a lookup is expected to return once the (first) matching entry \<open>hit\<close> is known:
  the result and the caller's buffer.
\<close>

definition get_result :: "byte list option \<Rightarrow> nat \<Rightarrow> entry option \<Rightarrow> ret \<times> byte list option" where
  "get_result buffer sz hit =
     (case hit of
        None \<Rightarrow> (Inl ENODATA, buffer)
      | Some e \<Rightarrow>
         (case buffer of
            None \<Rightarrow> (Inr (length (snd e)), None)
          | Some buf \<Rightarrow>
             if sz < length (snd e) then (Inl ERANGE, buffer)
             else (Inr (length (snd e)), Some (snd e @ drop (length (snd e)) buf))))"

text \<open>
  \<open>iter_steps E n s\<close>: the state after \<open>n\<close> steps of the iterator that each returned 1,
  as the loops of both queries take them; \<open>None\<close> when one of them did not.
\<close>

fun iter_steps :: "fs_env \<Rightarrow> nat \<Rightarrow> iter_state \<Rightarrow> iter_state option" where
  "iter_steps E 0 s = Some s"
| "iter_steps E (Suc n) s =
     (let (err, s') = squashfs_xattr_iterator_next E s
      in if err = Inr 1 then iter_steps E n s' else None)"

text \<open>The number of buffers the iterator holds (its non-\<^verbatim>\<open>NULL\<close> pointers).\<close>

definition held :: "squashfs_xattr_iterator \<Rightarrow> int" where
  "held iter = (if name iter = None then 0 else 1) + (if value_buf iter = None then 0 else 1)"

section \<open>Reading one well-formed entry from an image\<close>

lemma length_cpu_to_le32: "length (cpu_to_le32 w) = 4"
  by (simp add: cpu_to_le32_def)

lemma bytes_sum:
  fixes x :: nat
  assumes "x < 4294967296"
  shows "x mod 256 + 256 * (x div 256 mod 256) + 65536 * (x div 65536 mod 256)
          + 16777216 * (x div 16777216 mod 256) = x"
proof -
  have d1: "x = x mod 256 + 256 * (x div 256)" by simp
  have d2: "x div 256 = x div 256 mod 256 + 256 * (x div 65536)"
    using div_mult2_eq[of x 256 256] by simp
  have d3: "x div 65536 = x div 65536 mod 256 + 256 * (x div 16777216)"
    using div_mult2_eq[of x 65536 256] by simp
  have d4: "x div 16777216 mod 256 = x div 16777216"
    using assms by (simp add: less_mult_imp_div_less)
  show ?thesis using d1 d2 d3 d4 by linarith
qed

lemma unat_byte:
  fixes w :: "32 word"
  shows "unat (ucast (drop_bit n w) :: 8 word) = unat w div 2 ^ n mod 256"
proof -
  have a: "unat (drop_bit n w) = unat w div 2 ^ n"
    by (subst unat_drop_bit_eq) (rule drop_bit_eq_div)
  have "unat (ucast (drop_bit n w) :: 8 word) = unat (drop_bit n w) mod 2 ^ LENGTH(8)"
    by (simp only: unsigned_ucast_eq take_bit_eq_mod)
  then show ?thesis by (simp only: a) simp
qed

lemma le32_roundtrip: "le32_to_cpu (cpu_to_le32 w @ bs) = w"
proof -
  have lt: "unat w < 4294967296" using unsigned_less[of w, where 'a=nat] by simp
  have u0: "unat (ucast w :: 8 word) = unat w mod 256" using unat_byte[of 0 w] by simp
  have u1: "unat (ucast (drop_bit 8 w) :: 8 word) = unat w div 256 mod 256"
    using unat_byte[of 8 w] by simp
  have u2: "unat (ucast (drop_bit 16 w) :: 8 word) = unat w div 65536 mod 256"
    using unat_byte[of 16 w] by simp
  have u3: "unat (ucast (drop_bit 24 w) :: 8 word) = unat w div 16777216 mod 256"
    using unat_byte[of 24 w] by simp
  have "le32_to_cpu (cpu_to_le32 w @ bs) = word_of_nat (unat w)"
    by (simp only: cpu_to_le32_def append_Cons append_Nil le32_to_cpu.simps u0 u1 u2 u3
          bytes_sum[OF lt])
  then show ?thesis by simp
qed

lemma flat_read_append:
  assumes "0 \<le> off" and "drop (8192 * unat b + nat off) img = xs @ ys" and "length xs = n"
  shows "flat_read img b off n = Rd_ok xs b (off + int n)"
  using assms by (simp add: flat_read_def Let_def)

lemma drop_advance:
  assumes "0 \<le> off" and "drop (8192 * unat b + nat off) img = xs @ ys"
  shows "drop (8192 * unat b + nat (off + int (length xs))) img = ys"
proof -
  have "nat (off + int (length xs)) = nat off + length xs" using assms(1) by simp
  then have "8192 * unat b + nat (off + int (length xs)) = length xs + (8192 * unat b + nat off)"
    by simp
  then have "drop (8192 * unat b + nat (off + int (length xs))) img
        = drop (length xs) (drop (8192 * unat b + nat off) img)"
    by (simp only: drop_drop)
  then show ?thesis using assms(2) by simp
qed

lemma unat_of_nat32: "n < 4294967296 \<Longrightarrow> unat (word_of_nat n :: 32 word) = n"
  by (simp add: unat_of_nat)

lemma next_good:
  assumes st: "stream_at img iter (encode_entry e @ rest)"
    and nl: "length (fst e) \<le> 4096" and vl: "length (snd e) \<le> 65536"
    and bud: "entry_size e \<le> unat (remaining_bytes iter)"
  shows "\<exists>iter' m'. squashfs_xattr_iterator_next (flat_env img tbl cap) (iter, m) = (Inr 1, (iter', m'))
           \<and> name iter' = Some (fst e @ [0]) \<and> name_len iter' = length (fst e)
           \<and> value_buf iter' = Some (snd e) \<and> value_len iter' = length (snd e)
           \<and> stream_at img iter' rest
           \<and> unat (remaining_bytes iter') + entry_size e = unat (remaining_bytes iter)"
proof -
  define n v where "n = fst e" and "v = snd e"
  define a b :: "32 word" where "a = word_of_nat (length n)" and "b = word_of_nat (length v)"
  define r where "r = remaining_bytes iter"
  define hdr where "hdr = cpu_to_le32 a @ cpu_to_le32 b"
  have ua: "unat a = length n" using nl by (simp add: a_def n_def unat_of_nat32)
  have ub: "unat b = length v" using vl by (simp add: b_def v_def unat_of_nat32)
  have off0: "0 \<le> offset iter" using st by (simp add: stream_at_def)
  have s0: "drop (8192 * unat (block iter) + nat (offset iter)) img = hdr @ (n @ v @ rest)"
    using st by (simp add: stream_at_def encode_entry_def hdr_def a_def b_def n_def v_def)
  have lh: "length hdr = 8" by (simp add: hdr_def length_cpu_to_le32)
  have r1: "flat_read img (block iter) (offset iter) 8 = Rd_ok hdr (block iter) (offset iter + 8)"
    using flat_read_append[OF off0 s0 lh] by simp
  have s1: "drop (8192 * unat (block iter) + nat (offset iter + 8)) img = n @ (v @ rest)"
    using drop_advance[OF off0 s0] lh by simp
  have off1: "0 \<le> offset iter + 8" using off0 by simp
  have r2: "flat_read img (block iter) (offset iter + 8) (length n)
              = Rd_ok n (block iter) (offset iter + 8 + int (length n))"
    using flat_read_append[OF off1 s1 refl] by simp
  have s2: "drop (8192 * unat (block iter) + nat (offset iter + 8 + int (length n))) img = v @ rest"
    using drop_advance[OF off1 s1] by simp
  have off2: "0 \<le> offset iter + 8 + int (length n)" using off0 by simp
  have r3: "flat_read img (block iter) (offset iter + 8 + int (length n)) (length v)
              = Rd_ok v (block iter) (offset iter + 8 + int (length n) + int (length v))"
    using flat_read_append[OF off2 s2 refl] by simp
  have s3: "drop (8192 * unat (block iter) + nat (offset iter + 8 + int (length n) + int (length v))) img = rest"
    using drop_advance[OF off2 s2] by simp
  have la: "le32_to_cpu hdr = a" by (simp add: hdr_def le32_roundtrip)
  have lb: "le32_to_cpu (drop 4 hdr) = b"
    using le32_roundtrip[of b "[]"] by (simp add: hdr_def length_cpu_to_le32)
  have bud': "8 + length n + length v \<le> unat r"
    using bud by (simp add: entry_size_def n_def v_def r_def)
  have r0: "r \<noteq> 0" using bud' by (auto simp: unat_eq_0)
  have r8: "\<not> r < 8" using bud' by (simp add: word_less_nat_alt)
  have u8: "unat (r - 8) = unat r - 8" using r8 by (simp add: unat_sub not_less)
  have uab: "unat (a + b) = length n + length v"
    using ua ub nl vl by (simp add: unat_word_ariths n_def v_def)
  have le: "\<not> r - 8 < a + b" using bud' u8 uab by (simp add: word_less_nat_alt)
  have fin: "unat (r - 8 - (a + b)) + (8 + length n + length v) = unat r"
    using budget_arith[of a b r] ua ub nl vl r8 le by (simp add: n_def v_def)
  show ?thesis
    unfolding squashfs_xattr_iterator_next_def xattr_iterator_read_next_def
      xattr_iterator_release_buffer_def
    using r0 r8 le fin off2 s3 nl vl
    by (simp add: Let_def flat_env_def kmalloc_def kfree_def r_def[symmetric] r1 r2 r3 la lb ua ub lh
        stream_at_def entry_size_def n_def[symmetric] v_def[symmetric]
        a_def[symmetric] b_def[symmetric] split: option.splits)
qed

section \<open>The listing loop over well-formed entries\<close>

lemma length_kept_names: "length (kept_names E es) = kept_size E es"
  by (induction es) (simp_all add: kept_names_def kept_size_def)

lemma next_exhausted:
  assumes "remaining_bytes iter = 0"
  shows "squashfs_xattr_iterator_next E (iter, m) = (Inr 0, xattr_iterator_release_buffer (iter, m))"
  using assms
  by (simp add: squashfs_xattr_iterator_next_def xattr_iterator_read_next_def
        xattr_iterator_release_buffer_def Let_def)

lemma memcpy_name:
  assumes "pos + length n + 1 \<le> length buf"
  shows "(memcpy buf pos (n @ [0]) (length n))[pos + length n := 0]
           = take pos buf @ n @ [0] @ drop (pos + length n + 1) buf"
proof -
  have d: "drop (pos + length n) buf = buf ! (pos + length n) # drop (pos + length n + 1) buf"
    using assms by (simp add: Cons_nth_drop_Suc)
  have l: "length (take pos buf @ n) = pos + length n" using assms by simp
  have "memcpy buf pos (n @ [0]) (length n) = (take pos buf @ n) @ drop (pos + length n) buf"
    by (simp add: memcpy_def)
  then have "(memcpy buf pos (n @ [0]) (length n))[pos + length n := 0]
          = (take pos buf @ n) @ (drop (pos + length n) buf)[0 := 0]"
    using l by (simp only: list_update_append) simp
  then show ?thesis by (simp add: d)
qed

lemma list_prefix_none:
  assumes "stream_at img iter (encode_entries es @ rest)" and "entries_ok es"
    and "entries_size es \<le> unat (remaining_bytes iter)"
  shows "\<exists>iter' m'. list_loop (flat_env img tbl cap) (iter, m) w None pos sz
            = list_loop (flat_env img tbl cap) (iter', m') (w + kept_size (flat_env img tbl cap) es) None pos sz
          \<and> stream_at img iter' rest
          \<and> unat (remaining_bytes iter') + entries_size es = unat (remaining_bytes iter)"
  using assms
proof (induction es arbitrary: iter m w)
  case Nil
  then show ?case by (auto simp: encode_entries_def kept_size_def entries_size_def)
next
  case (Cons e es)
  let ?E = "flat_env img tbl cap"
  have st: "stream_at img iter (encode_entry e @ (encode_entries es @ rest))"
    using Cons.prems(1) by (simp add: encode_entries_def)
  have ok: "length (fst e) \<le> 4096" "length (snd e) \<le> 65536" "entries_ok es"
    using Cons.prems(2) by (simp_all add: entries_ok_def)
  have bud: "entry_size e \<le> unat (remaining_bytes iter)"
    using Cons.prems(3) by (simp add: entries_size_def)
  obtain iter1 m1 where
    nx: "squashfs_xattr_iterator_next ?E (iter, m) = (Inr 1, (iter1, m1))"
    and nm: "name iter1 = Some (fst e @ [0])" "name_len iter1 = length (fst e)"
    and st1: "stream_at img iter1 (encode_entries es @ rest)"
    and b1: "unat (remaining_bytes iter1) + entry_size e = unat (remaining_bytes iter)"
    using next_good[OF st ok(1,2) bud, of tbl cap m] by blast
  have bud1: "entries_size es \<le> unat (remaining_bytes iter1)"
    using Cons.prems(3) b1 by (simp add: entries_size_def)
  show ?case
  proof (cases "kept ?E e")
    case True
    obtain iter' m' where
      "list_loop ?E (iter1, m1) (w + (length (fst e) + 1)) None pos sz
         = list_loop ?E (iter', m') (w + (length (fst e) + 1) + kept_size ?E es) None pos sz"
      "stream_at img iter' rest"
      "unat (remaining_bytes iter') + entries_size es = unat (remaining_bytes iter1)"
      using Cons.IH[OF st1 ok(3) bud1, of m1 "w + (length (fst e) + 1)"] by blast
    moreover have "list_loop ?E (iter, m) w None pos sz
         = list_loop ?E (iter1, m1) (w + (length (fst e) + 1)) None pos sz"
      using True by (subst list_loop.simps) (simp add: nx nm kept_def Let_def)
    ultimately show ?thesis
      using True b1 by (auto simp: kept_size_def entries_size_def add.assoc intro!: exI)
  next
    case False
    obtain iter' m' where
      "list_loop ?E (iter1, m1) w None pos sz
         = list_loop ?E (iter', m') (w + kept_size ?E es) None pos sz"
      "stream_at img iter' rest"
      "unat (remaining_bytes iter') + entries_size es = unat (remaining_bytes iter1)"
      using Cons.IH[OF st1 ok(3) bud1, of m1 w] by blast
    moreover have "list_loop ?E (iter, m) w None pos sz = list_loop ?E (iter1, m1) w None pos sz"
      using False by (subst list_loop.simps) (simp add: nx nm kept_def Let_def)
    ultimately show ?thesis
      using False b1 by (auto simp: kept_size_def entries_size_def add.assoc intro!: exI)
  qed
qed

lemma kept_size_Cons:
  "kept_size E (e # es) = (if kept E e then length (fst e) + 1 else 0) + kept_size E es"
  by (simp add: kept_size_def)

lemma kept_names_Cons:
  "kept_names E (e # es) = (if kept E e then fst e @ [0] else []) @ kept_names E es"
  by (simp add: kept_names_def)

lemma list_prefix_some:
  assumes "stream_at img iter (encode_entries es @ rest)" and "entries_ok es"
    and "entries_size es \<le> unat (remaining_bytes iter)"
    and "pos + kept_size (flat_env img tbl cap) es \<le> length buf"
    and "kept_size (flat_env img tbl cap) es \<le> sz"
  shows "\<exists>iter' m'. list_loop (flat_env img tbl cap) (iter, m) w (Some buf) pos sz
            = list_loop (flat_env img tbl cap) (iter', m')
                (w + kept_size (flat_env img tbl cap) es)
                (Some (take pos buf @ kept_names (flat_env img tbl cap) es
                         @ drop (pos + kept_size (flat_env img tbl cap) es) buf))
                (pos + kept_size (flat_env img tbl cap) es)
                (sz - kept_size (flat_env img tbl cap) es)
          \<and> stream_at img iter' rest
          \<and> unat (remaining_bytes iter') + entries_size es = unat (remaining_bytes iter)"
  using assms
proof (induction es arbitrary: iter m w buf pos sz)
  case Nil
  then show ?case by (auto simp: encode_entries_def kept_size_def kept_names_def entries_size_def)
next
  case (Cons e es)
  let ?E = "flat_env img tbl cap"
  have st: "stream_at img iter (encode_entry e @ (encode_entries es @ rest))"
    using Cons.prems(1) by (simp add: encode_entries_def)
  have ok: "length (fst e) \<le> 4096" "length (snd e) \<le> 65536" "entries_ok es"
    using Cons.prems(2) by (simp_all add: entries_ok_def)
  have bud: "entry_size e \<le> unat (remaining_bytes iter)"
    using Cons.prems(3) by (simp add: entries_size_def)
  obtain iter1 m1 where
    nx: "squashfs_xattr_iterator_next ?E (iter, m) = (Inr 1, (iter1, m1))"
    and nm: "name iter1 = Some (fst e @ [0])" "name_len iter1 = length (fst e)"
    and st1: "stream_at img iter1 (encode_entries es @ rest)"
    and b1: "unat (remaining_bytes iter1) + entry_size e = unat (remaining_bytes iter)"
    using next_good[OF st ok(1,2) bud, of tbl cap m] by blast
  have bud1: "entries_size es \<le> unat (remaining_bytes iter1)"
    using Cons.prems(3) b1 by (simp add: entries_size_def)
  have bsz: "unat (remaining_bytes iter1) + entries_size (e # es)
               = unat (remaining_bytes iter) + entries_size es" for x
    using b1 by (simp add: entries_size_def)
  show ?case
  proof (cases "kept ?E e")
    case True
    define c where "c = length (fst e) + 1"
    define buf1 where "buf1 = take pos buf @ fst e @ [0] @ drop (pos + c) buf"
    have rq: "kept_size ?E (e # es) = c + kept_size ?E es" and
      ls: "kept_names ?E (e # es) = fst e @ [0] @ kept_names ?E es"
      using True by (simp_all add: kept_size_Cons kept_names_Cons c_def)
    have fit: "pos + length (fst e) + 1 \<le> length buf" "c \<le> sz"
      using Cons.prems(4,5) rq by (simp_all add: c_def)
    have lb1: "length buf1 = length buf" using fit by (simp add: buf1_def c_def)
    have p1: "pos + c + kept_size ?E es \<le> length buf1" "kept_size ?E es \<le> sz - c"
      using Cons.prems(4,5) rq lb1 by simp_all
    have step: "list_loop ?E (iter, m) w (Some buf) pos sz
         = list_loop ?E (iter1, m1) (w + c) (Some buf1) (pos + c) (sz - c)"
      using True fit memcpy_name[OF fit(1)]
      by (subst list_loop.simps) (simp add: nx nm kept_def Let_def c_def buf1_def)
    obtain iter' m' where
      ih: "list_loop ?E (iter1, m1) (w + c) (Some buf1) (pos + c) (sz - c)
         = list_loop ?E (iter', m') (w + c + kept_size ?E es)
             (Some (take (pos + c) buf1 @ kept_names ?E es @ drop (pos + c + kept_size ?E es) buf1))
             (pos + c + kept_size ?E es) (sz - c - kept_size ?E es)"
      and st': "stream_at img iter' rest"
      and b': "unat (remaining_bytes iter') + entries_size es = unat (remaining_bytes iter1)"
      using Cons.IH[OF st1 ok(3) bud1 p1, of m1 "w + c"] by blast
    have t: "take (pos + c) buf1 = take pos buf @ fst e @ [0]"
      using fit by (simp add: buf1_def c_def)
    have d: "drop (pos + c + kept_size ?E es) buf1 = drop (pos + c + kept_size ?E es) buf"
      using fit by (simp add: buf1_def c_def add.commute add.left_commute)
    have "list_loop ?E (iter, m) w (Some buf) pos sz
         = list_loop ?E (iter', m') (w + kept_size ?E (e # es))
             (Some (take pos buf @ kept_names ?E (e # es) @ drop (pos + kept_size ?E (e # es)) buf))
             (pos + kept_size ?E (e # es)) (sz - kept_size ?E (e # es))"
      unfolding step ih t d rq ls by (simp add: add.assoc)
    then show ?thesis using st' b' bsz by auto
  next
    case False
    have rq: "kept_size ?E (e # es) = kept_size ?E es" and
      ls: "kept_names ?E (e # es) = kept_names ?E es"
      using False by (simp_all add: kept_size_Cons kept_names_Cons)
    have step: "list_loop ?E (iter, m) w (Some buf) pos sz
         = list_loop ?E (iter1, m1) w (Some buf) pos sz"
      using False by (subst list_loop.simps) (simp add: nx nm kept_def Let_def)
    obtain iter' m' where
      ih: "list_loop ?E (iter1, m1) w (Some buf) pos sz
         = list_loop ?E (iter', m') (w + kept_size ?E es)
             (Some (take pos buf @ kept_names ?E es @ drop (pos + kept_size ?E es) buf))
             (pos + kept_size ?E es) (sz - kept_size ?E es)"
      and st': "stream_at img iter' rest"
      and b': "unat (remaining_bytes iter') + entries_size es = unat (remaining_bytes iter1)"
      using Cons.IH[OF st1 ok(3) bud1, of pos buf sz m1 w] Cons.prems(4,5) rq by auto
    have "list_loop ?E (iter, m) w (Some buf) pos sz
         = list_loop ?E (iter', m') (w + kept_size ?E (e # es))
             (Some (take pos buf @ kept_names ?E (e # es) @ drop (pos + kept_size ?E (e # es)) buf))
             (pos + kept_size ?E (e # es)) (sz - kept_size ?E (e # es))"
      unfolding step ih rq ls by simp
    then show ?thesis using st' b' bsz by auto
  qed
qed

section \<open>Queries on a well-formed attribute set\<close>

lemma offset_nonneg: "sint ((xattr :: 32 word) AND 8191) = uint (xattr AND 8191)"
proof -
  have "xattr AND 8191 \<le> 8191" by (rule word_and_le1)
  then have le: "uint (xattr AND 8191) \<le> 8191" by (simp add: word_le_def)
  have lo: "- (2 ^ 31) \<le> uint (xattr AND 8191)"
    by (rule order_trans[of _ 0]) simp_all
  have hi: "uint (xattr AND 8191) < 2 ^ 31" using le by simp
  show ?thesis
    using signed_take_bit_int_eq_self[OF lo hi] by (simp add: sint_uint)
qed

lemma start_flat:
  assumes "xattr \<noteq> - 1" and "tbl \<noteq> - 1"
    and "locator_pos tbl xattr = length pre"
  shows "\<exists>iter. squashfs_xattr_iterator_start (flat_env (pre @ cpu_to_le32 hsize @ body) tbl cap) xattr
             = (Inr 1, iter)
           \<and> stream_at (pre @ cpu_to_le32 hsize @ body) iter body
           \<and> remaining_bytes iter = hsize - 4"
proof -
  let ?b = "tbl + scast (signed_drop_bit 13 xattr)"
  let ?off = "sint (xattr AND 8191)"
  let ?img = "pre @ cpu_to_le32 hsize @ body"
  have off0: "0 \<le> ?off" by (simp add: offset_nonneg)
  have pos: "8192 * unat ?b + nat ?off = length pre"
    using assms(3) by (simp add: locator_pos_def offset_nonneg)
  have s0: "drop (8192 * unat ?b + nat ?off) ?img = cpu_to_le32 hsize @ body"
    by (simp add: pos)
  have r: "flat_read ?img ?b ?off 4 = Rd_ok (cpu_to_le32 hsize) ?b (?off + 4)"
    using flat_read_append[OF off0 s0 length_cpu_to_le32] by simp
  have s1: "drop (8192 * unat ?b + nat (?off + 4)) ?img = body"
    using drop_advance[OF off0 s0] by (simp add: length_cpu_to_le32)
  have l: "le32_to_cpu (cpu_to_le32 hsize) = hsize" using le32_roundtrip[of hsize "[]"] by simp
  show ?thesis
    using assms(1,2) off0 s1
    by (simp add: squashfs_xattr_iterator_start_def Let_def flat_env_def r l
          length_cpu_to_le32 stream_at_def)
qed

lemma list_loop_end:
  assumes "remaining_bytes iter = 0"
  shows "list_loop E (iter, m) w buffer pos sz
           = (Inr 0, w, buffer, xattr_iterator_release_buffer (iter, m))"
  by (subst list_loop.simps) (simp add: next_exhausted[OF assms])

lemma header_budget:
  assumes "4 + n < 2 ^ 32"
  shows "unat ((word_of_nat (4 + n) :: 32 word) - 4) = n"
proof -
  have "(word_of_nat (4 + n) :: 32 word) - 4 = word_of_nat n" by simp
  moreover have "n < 4294967296" using assms by simp
  ultimately show ?thesis by (simp add: unat_of_nat32)
qed

lemma start_set:
  assumes "well_formed es" and "xattr \<noteq> - 1" and "tbl \<noteq> - 1"
    and "locator_pos tbl xattr = length pre"
  shows "\<exists>iter. squashfs_xattr_iterator_start (flat_env (pre @ encode_set es @ rest) tbl cap) xattr
             = (Inr 1, iter)
           \<and> stream_at (pre @ encode_set es @ rest) iter (encode_entries es @ rest)
           \<and> unat (remaining_bytes iter) = entries_size es"
proof -
  have "4 + entries_size es < 2 ^ 32" using assms(1) by (simp add: well_formed_def)
  then have "unat ((word_of_nat (4 + entries_size es) :: 32 word) - 4) = entries_size es"
    by (rule header_budget)
  then show ?thesis
    using start_flat[OF assms(2,3,4), where hsize="word_of_nat (4 + entries_size es)"
        and body="encode_entries es @ rest" and cap=cap]
    by (auto simp: encode_set_def)
qed

lemma listxattr_none:
  assumes "well_formed es" and "xattr \<noteq> - 1" and "tbl \<noteq> - 1"
    and "locator_pos tbl xattr = length pre"
    and E: "E = flat_env (pre @ encode_set es @ rest) tbl cap"
  shows "\<exists>m'. squashfs_listxattr E xattr None sz m = (Inr (kept_size E es), None, m')"
proof -
  let ?img = "pre @ encode_set es @ rest"
  obtain iter where
    st: "squashfs_xattr_iterator_start E xattr = (Inr 1, iter)"
    and sa: "stream_at ?img iter (encode_entries es @ rest)"
    and b: "unat (remaining_bytes iter) = entries_size es"
    using start_set[OF assms(1-4), where rest=rest and cap=cap] E by blast
  have ok: "entries_ok es" using assms(1) by (simp add: well_formed_def)
  obtain iter' m' where
    lp: "list_loop E (iter, m) 0 None 0 sz = list_loop E (iter', m') (0 + kept_size E es) None 0 sz"
    and b': "unat (remaining_bytes iter') + entries_size es = unat (remaining_bytes iter)"
    using list_prefix_none[OF sa ok, where tbl=tbl and cap=cap and m=m and w=0 and pos=0 and sz=sz]
      b E by auto
  have "remaining_bytes iter' = 0" using b b' by (simp add: unat_eq_0)
  then have "list_loop E (iter, m) 0 None 0 sz
      = (Inr 0, kept_size E es, None, xattr_iterator_release_buffer (iter', m'))"
    using lp by (simp add: list_loop_end)
  then show ?thesis
    by (simp add: squashfs_listxattr_def st squashfs_xattr_iterator_end_def split: prod.splits)
qed

lemma listxattr_some:
  assumes "well_formed es" and "xattr \<noteq> - 1" and "tbl \<noteq> - 1"
    and "locator_pos tbl xattr = length pre"
    and E: "E = flat_env (pre @ encode_set es @ rest) tbl cap"
    and "kept_size E es \<le> length buf" and "kept_size E es \<le> sz"
  shows "\<exists>m'. squashfs_listxattr E xattr (Some buf) sz m
           = (Inr (kept_size E es), Some (kept_names E es @ drop (kept_size E es) buf), m')"
proof -
  let ?img = "pre @ encode_set es @ rest"
  obtain iter where
    st: "squashfs_xattr_iterator_start E xattr = (Inr 1, iter)"
    and sa: "stream_at ?img iter (encode_entries es @ rest)"
    and b: "unat (remaining_bytes iter) = entries_size es"
    using start_set[OF assms(1-4), where rest=rest and cap=cap] E by blast
  have ok: "entries_ok es" using assms(1) by (simp add: well_formed_def)
  obtain iter' m' where
    lp: "list_loop E (iter, m) 0 (Some buf) 0 sz
           = list_loop E (iter', m') (0 + kept_size E es)
               (Some (take 0 buf @ kept_names E es @ drop (0 + kept_size E es) buf))
               (0 + kept_size E es) (sz - kept_size E es)"
    and b': "unat (remaining_bytes iter') + entries_size es = unat (remaining_bytes iter)"
    using list_prefix_some[OF sa ok, where tbl=tbl and cap=cap and m=m and w=0 and pos=0
        and sz=sz and buf=buf] b E assms(6,7) by auto
  have "remaining_bytes iter' = 0" using b b' by (simp add: unat_eq_0)
  then have "list_loop E (iter, m) 0 (Some buf) 0 sz
      = (Inr 0, kept_size E es, Some (kept_names E es @ drop (kept_size E es) buf),
         xattr_iterator_release_buffer (iter', m'))"
    using lp by (simp add: list_loop_end)
  then show ?thesis
    by (simp add: squashfs_listxattr_def st squashfs_xattr_iterator_end_def split: prod.splits)
qed

section \<open>The lookup loop over well-formed entries\<close>

lemma strncmp_bounded: "strncmp s t k = 0 \<longleftrightarrow> take k (cstring s) = take k (cstring t)"
proof (induction k arbitrary: s t)
  case 0
  then show ?case by simp
next
  case (Suc k)
  show ?case
  proof (cases s)
    case Nil
    then show ?thesis by (cases t) (auto simp: cstring_def Let_def)
  next
    case (Cons c s')
    note s = this
    show ?thesis
    proof (cases t)
      case Nil
      then show ?thesis using s by (auto simp: cstring_def Let_def)
    next
      case (Cons d t')
      then show ?thesis using s Suc.IH[of s' t'] by (auto simp: cstring_def Let_def)
    qed
  qed
qed

lemma cstring_terminated: "cstring (nm @ [0]) = cstring nm"
  by (induction nm) (simp_all add: cstring_def)

lemma strncmp_name_matches:
  "strncmp q (nm @ [0]) (length nm) = 0 \<longleftrightarrow> name_matches q nm"
  by (simp add: strncmp_bounded cstring_terminated name_matches_def)

lemma name_matches_extra: "name_matches (nm @ extra) nm"
proof -
  have "take (length nm) (cstring (nm @ extra)) = take (length nm) (cstring nm)"
    by (induction nm) (simp_all add: cstring_def)
  then show ?thesis by (simp add: name_matches_def)
qed

lemma get_loop_end:
  assumes "remaining_bytes iter = 0"
  shows "get_loop E (iter, m) q buffer sz
           = (Inl ENODATA, buffer, xattr_iterator_release_buffer (iter, m))"
  by (subst get_loop.simps) (simp add: next_exhausted[OF assms])

lemma get_loop_wf:
  assumes "stream_at img iter (encode_entries es @ rest)" and "entries_ok es"
    and "unat (remaining_bytes iter) = entries_size es"
  shows "\<exists>s'. get_loop (flat_env img tbl cap) (iter, m) q buffer sz
           = (fst (get_result buffer sz (find (\<lambda>e. name_matches q (fst e)) es)),
              snd (get_result buffer sz (find (\<lambda>e. name_matches q (fst e)) es)), s')"
  using assms
proof (induction es arbitrary: iter m)
  case Nil
  then have "remaining_bytes iter = 0" by (simp add: entries_size_def unat_eq_0)
  then show ?case by (simp add: get_loop_end get_result_def)
next
  case (Cons e es)
  let ?E = "flat_env img tbl cap"
  have st: "stream_at img iter (encode_entry e @ (encode_entries es @ rest))"
    using Cons.prems(1) by (simp add: encode_entries_def)
  have ok: "length (fst e) \<le> 4096" "length (snd e) \<le> 65536" "entries_ok es"
    using Cons.prems(2) by (simp_all add: entries_ok_def)
  have bud: "entry_size e \<le> unat (remaining_bytes iter)"
    using Cons.prems(3) by (simp add: entries_size_def)
  obtain iter1 m1 where
    nx: "squashfs_xattr_iterator_next ?E (iter, m) = (Inr 1, (iter1, m1))"
    and nm: "name iter1 = Some (fst e @ [0])" "name_len iter1 = length (fst e)"
    and vl: "value_buf iter1 = Some (snd e)" "value_len iter1 = length (snd e)"
    and st1: "stream_at img iter1 (encode_entries es @ rest)"
    and b1: "unat (remaining_bytes iter1) + entry_size e = unat (remaining_bytes iter)"
    using next_good[OF st ok(1,2) bud, where tbl=tbl and cap=cap and m=m] by blast
  have bud1: "unat (remaining_bytes iter1) = entries_size es"
    using Cons.prems(3) b1 by (simp add: entries_size_def)
  show ?case
  proof (cases "name_matches q (fst e)")
    case True
    then show ?thesis
      by (subst get_loop.simps)
         (auto simp: nx nm vl strncmp_name_matches get_result_def memcpy_def Let_def
               split: option.splits)
  next
    case False
    have "get_loop ?E (iter, m) q buffer sz = get_loop ?E (iter1, m1) q buffer sz"
      using False by (subst get_loop.simps) (simp add: nx nm strncmp_name_matches Let_def)
    then show ?thesis
      using Cons.IH[OF st1 ok(3) bud1, of m1] False by simp
  qed
qed

lemma getxattr_wf:
  assumes "well_formed es" and "xattr \<noteq> - 1" and "tbl \<noteq> - 1"
    and "locator_pos tbl xattr = length pre"
    and E: "E = flat_env (pre @ encode_set es @ rest) tbl cap"
  shows "\<exists>m'. squashfs_getxattr E xattr q buffer sz m
           = (fst (get_result buffer sz (find (\<lambda>e. name_matches q (fst e)) es)),
              snd (get_result buffer sz (find (\<lambda>e. name_matches q (fst e)) es)), m')"
proof -
  let ?img = "pre @ encode_set es @ rest"
  obtain iter where
    st: "squashfs_xattr_iterator_start E xattr = (Inr 1, iter)"
    and sa: "stream_at ?img iter (encode_entries es @ rest)"
    and b: "unat (remaining_bytes iter) = entries_size es"
    using start_set[OF assms(1-4), where rest=rest and cap=cap] E by blast
  have ok: "entries_ok es" using assms(1) by (simp add: well_formed_def)
  obtain s' where
    "get_loop E (iter, m) q buffer sz
       = (fst (get_result buffer sz (find (\<lambda>e. name_matches q (fst e)) es)),
          snd (get_result buffer sz (find (\<lambda>e. name_matches q (fst e)) es)), s')"
    using get_loop_wf[OF sa ok b, where tbl=tbl and cap=cap and m=m and q=q
        and buffer=buffer and sz=sz] E by blast
  then show ?thesis
    by (simp add: squashfs_getxattr_def st squashfs_xattr_iterator_end_def split: prod.splits)
qed

section \<open>Budget and buffers\<close>

lemma read_next_no_underflow:
  assumes "xattr_iterator_read_next E s = (r, s')"
  shows "unat (remaining_bytes (fst s')) \<le> unat (remaining_bytes (fst s))"
proof -
  obtain iter m where s: "s = (iter, m)" by (cases s)
  have sub8: "\<not> x < 8 \<Longrightarrow> unat (x - 8) \<le> unat x" for x :: "32 word"
    by (simp add: unat_sub not_less)
  show ?thesis
  proof (cases "r = Inr (Suc 0)")
    case True
    then show ?thesis using read_next_budget[of E s s'] assms by simp
  next
    case False
    then show ?thesis
      using assms unfolding s xattr_iterator_read_next_def
      by (auto simp add: Let_def sub8 split: if_splits rd_result.splits prod.splits)
  qed
qed

lemma next_no_underflow:
  assumes "squashfs_xattr_iterator_next E s = (r, s')"
  shows "unat (remaining_bytes (fst s')) \<le> unat (remaining_bytes (fst s))"
  using read_next_no_underflow[OF assms[unfolded squashfs_xattr_iterator_next_def]]
  by (simp add: release_remaining)

lemma iter_steps_budget:
  assumes "iter_steps E n s = Some s'"
  shows "8 * n + unat (remaining_bytes (fst s')) \<le> unat (remaining_bytes (fst s))"
  using assms
proof (induction n arbitrary: s)
  case 0
  then show ?case by simp
next
  case (Suc n)
  obtain r s1 where nx: "squashfs_xattr_iterator_next E s = (r, s1)"
    by (cases "squashfs_xattr_iterator_next E s")
  with Suc.prems have r: "r = Inr (Suc 0)" and st: "iter_steps E n s1 = Some s'"
    by (auto split: if_splits)
  have "unat (remaining_bytes (fst s1)) + 8 \<le> unat (remaining_bytes (fst s))"
    using next_budget[of E s s1] nx r by simp
  moreover have "8 * n + unat (remaining_bytes (fst s')) \<le> unat (remaining_bytes (fst s1))"
    using Suc.IH[OF st] .
  ultimately show ?case by simp
qed

lemma release_live:
  "live (snd (xattr_iterator_release_buffer s)) = live (snd s) - held (fst s)"
  "name (fst (xattr_iterator_release_buffer s)) = None"
  "value_buf (fst (xattr_iterator_release_buffer s)) = None"
  by (auto simp: xattr_iterator_release_buffer_def kfree_def held_def Let_def
           split: prod.splits option.splits)

lemma read_next_live:
  assumes "name (fst s) = None" and "value_buf (fst s) = None"
    and "xattr_iterator_read_next E s = (r, s')"
  shows "live (snd s') = live (snd s) + held (fst s')"
proof -
  obtain iter m where s: "s = (iter, m)" by (cases s)
  show ?thesis
    using assms unfolding s xattr_iterator_read_next_def
    by (auto simp add: Let_def held_def kmalloc_def
             split: if_splits rd_result.splits prod.splits)
qed

lemma next_live:
  assumes "squashfs_xattr_iterator_next E s = (r, s')"
  shows "live (snd s') - held (fst s') = live (snd s) - held (fst s)"
  using read_next_live[OF release_live(2,3) assms[unfolded squashfs_xattr_iterator_next_def]]
  by (simp add: release_live(1))

lemma list_loop_live:
  assumes "list_loop E s w buffer pos sz = (r, w', buffer', s')"
  shows "live (snd s') - held (fst s') = live (snd s) - held (fst s)"
  using assms
proof (induction E s w buffer pos sz rule: list_loop.induct)
  case (1 E s written buffer pos size')
  obtain err s1 where nx: "squashfs_xattr_iterator_next E s = (err, s1)"
    by (cases "squashfs_xattr_iterator_next E s")
  have l1: "live (snd s1) - held (fst s1) = live (snd s) - held (fst s)"
    using next_live[OF nx] .
  show ?case
  proof (cases "err = Inr 1")
    case False
    then show ?thesis
      using "1.prems" l1 by (subst (asm) list_loop.simps) (auto simp: nx Let_def)
  next
    case True
    note ih = "1.IH"[OF nx[symmetric] refl True refl refl]
    show ?thesis
      using "1.prems" l1 True ih
      by (subst (asm) list_loop.simps)
         (auto simp: nx Let_def split: if_splits option.splits)
  qed
qed

lemma get_loop_live:
  assumes "get_loop E s q buffer sz = (r, buffer', s')"
  shows "live (snd s') - held (fst s') = live (snd s) - held (fst s)"
  using assms
proof (induction E s q buffer sz rule: get_loop.induct)
  case (1 E s name' buffer size')
  obtain err s1 where nx: "squashfs_xattr_iterator_next E s = (err, s1)"
    by (cases "squashfs_xattr_iterator_next E s")
  have l1: "live (snd s1) - held (fst s1) = live (snd s) - held (fst s)"
    using next_live[OF nx] .
  show ?case
  proof (cases "err = Inr 1")
    case False
    then show ?thesis
      using "1.prems" l1 by (subst (asm) get_loop.simps) (auto simp: nx Let_def)
  next
    case True
    note ih = "1.IH"[OF nx[symmetric] refl True refl]
    show ?thesis
      using "1.prems" l1 True ih
      by (subst (asm) get_loop.simps)
         (auto simp: nx Let_def split: if_splits option.splits)
  qed
qed

lemma start_no_buffers:
  "held (snd (squashfs_xattr_iterator_start E xattr)) = 0"
  by (simp add: squashfs_xattr_iterator_start_def iter0_def held_def Let_def
           split: rd_result.splits)

lemma listxattr_live:
  "live (snd (snd (squashfs_listxattr E xattr buffer sz m))) = live m"
proof -
  obtain err iter where st: "squashfs_xattr_iterator_start E xattr = (err, iter)"
    by (cases "squashfs_xattr_iterator_start E xattr")
  have h0: "held iter = 0" using start_no_buffers[of E xattr] st by simp
  obtain r w b s' where lp: "list_loop E (iter, m) 0 buffer 0 sz = (r, w, b, s')"
    by (cases "list_loop E (iter, m) 0 buffer 0 sz")
  have "live (snd s') - held (fst s') = live m"
    using list_loop_live[OF lp] h0 by simp
  then have "live (snd (xattr_iterator_release_buffer s')) = live m"
    by (simp add: release_live(1))
  then show ?thesis
    by (auto simp add: squashfs_listxattr_def st lp squashfs_xattr_iterator_end_def
             split: sum.splits prod.splits)
qed

lemma getxattr_live:
  "live (snd (snd (squashfs_getxattr E xattr q buffer sz m))) = live m"
proof -
  obtain err iter where st: "squashfs_xattr_iterator_start E xattr = (err, iter)"
    by (cases "squashfs_xattr_iterator_start E xattr")
  have h0: "held iter = 0" using start_no_buffers[of E xattr] st by simp
  obtain r b s' where lp: "get_loop E (iter, m) q buffer sz = (r, b, s')"
    by (cases "get_loop E (iter, m) q buffer sz")
  have "live (snd s') - held (fst s') = live m"
    using get_loop_live[OF lp] h0 by simp
  then have a: "live (snd (xattr_iterator_release_buffer s')) = live m"
    by (simp add: release_live(1))
  have b: "live (snd (xattr_iterator_release_buffer (iter, m))) = live m"
    using h0 by (simp add: release_live(1))
  show ?thesis
    using a b
    by (auto simp add: squashfs_getxattr_def st lp squashfs_xattr_iterator_end_def
             split: sum.splits prod.splits)
qed

section \<open>Evaluation on concrete images\<close>

lemma strncmp_numeral:
  "strncmp cs ct (numeral k) =
     (let c1 = (case cs of [] \<Rightarrow> 0 | c # cs' \<Rightarrow> c);
          c2 = (case ct of [] \<Rightarrow> 0 | c # ct' \<Rightarrow> c)
      in if c1 \<noteq> c2 then (if c1 < c2 then - 1 else 1)
         else if c1 = 0 then 0
         else strncmp (tl cs) (tl ct) (pred_numeral k))"
  by (simp add: numeral_eq_Suc)

lemmas eval_defs =
  squashfs_listxattr_def squashfs_getxattr_def squashfs_xattr_iterator_start_def
  flat_env_def flat_read_def iter0_def mem0_def squashfs_xattr_iterator_next_def
  xattr_iterator_read_next_def xattr_iterator_release_buffer_def kfree_def kmalloc_def
  filtered_def squashfs_xattr_iterator_end_def memcpy_def Let_def
  XATTR_TRUSTED_PREFIX_def XATTR_TRUSTED_PREFIX_LEN_def list_loop.simps get_loop.simps
  strncmp_numeral

lemmas encode_defs =
  encode_set_def encode_entries_def encode_entry_def cpu_to_le32_def entries_size_def
  entry_size_def

section \<open>Privilege\<close>





lemma privileged_kept: "kept (flat_env img tbl True) e"
  by (simp add: kept_def filtered_def flat_env_def)

lemma privileged_kept_size:
  "kept_size (flat_env img tbl True) es = sum_list (map (\<lambda>e. length (fst e) + 1) es)"
  by (simp add: kept_size_def privileged_kept)



section \<open>Entries that break the bounds\<close>

lemma next_bad:
  assumes st: "stream_at img iter (cpu_to_le32 a @ cpu_to_le32 b @ rest)"
    and r0: "remaining_bytes iter \<noteq> 0"
    and bad: "4096 < unat a \<or> 65536 < unat b \<or> unat (remaining_bytes iter) < 8 + unat a + unat b"
  shows "fst (squashfs_xattr_iterator_next (flat_env img tbl cap) (iter, m)) = Inl EIO"
proof -
  define r where "r = remaining_bytes iter"
  define hdr where "hdr = cpu_to_le32 a @ cpu_to_le32 b"
  have off0: "0 \<le> offset iter" using st by (simp add: stream_at_def)
  have s0: "drop (8192 * unat (block iter) + nat (offset iter)) img = hdr @ rest"
    using st by (simp add: stream_at_def hdr_def)
  have lh: "length hdr = 8" by (simp add: hdr_def length_cpu_to_le32)
  have r1: "flat_read img (block iter) (offset iter) 8 = Rd_ok hdr (block iter) (offset iter + 8)"
    using flat_read_append[OF off0 s0 lh] by simp
  have la: "le32_to_cpu hdr = a" by (simp add: hdr_def le32_roundtrip)
  have lb: "le32_to_cpu (drop 4 hdr) = b"
    using le32_roundtrip[of b "[]"] by (simp add: hdr_def length_cpu_to_le32)
  have over: "r - 8 < a + b"
    if "\<not> r < 8" "\<not> 4096 < unat a" "\<not> 65536 < unat b"
  proof -
    have u8: "unat (r - 8) = unat r - 8" using that(1) by (simp add: unat_sub not_less)
    have uab: "unat (a + b) = unat a + unat b" using that(2,3) by (simp add: unat_word_ariths)
    have "8 \<le> unat r" using that(1) by (simp add: word_less_nat_alt)
    moreover have "unat r < 8 + unat a + unat b" using bad that(2,3) by (simp add: r_def)
    ultimately show ?thesis using u8 uab by (simp add: word_less_nat_alt)
  qed
  show ?thesis
    unfolding squashfs_xattr_iterator_next_def xattr_iterator_read_next_def
      xattr_iterator_release_buffer_def
    using r0 over
    by (auto simp add: Let_def flat_env_def kfree_def r_def[symmetric] r1 la lb lh
        split: option.splits)
qed

lemma list_loop_error:
  assumes "fst (squashfs_xattr_iterator_next E s) = Inl e"
  shows "fst (list_loop E s w buffer pos sz) = Inl e"
proof -
  obtain err s' where nx: "squashfs_xattr_iterator_next E s = (err, s')"
    by (cases "squashfs_xattr_iterator_next E s")
  then have "err = Inl e" using assms by simp
  then show ?thesis by (subst list_loop.simps) (simp add: nx)
qed

lemma listxattr_error:
  assumes "squashfs_xattr_iterator_start E xattr = (Inr 1, iter)"
    and "fst (list_loop E (iter, m) 0 buffer 0 sz) = Inl e"
  shows "fst (squashfs_listxattr E xattr buffer sz m) = Inl e"
proof -
  obtain r w b s' where lp: "list_loop E (iter, m) 0 buffer 0 sz = (r, w, b, s')"
    by (cases "list_loop E (iter, m) 0 buffer 0 sz")
  then have "r = Inl e" using assms(2) by simp
  then show ?thesis
    by (simp add: squashfs_listxattr_def assms(1) lp split: prod.splits)
qed

lemma listxattr_bad_entry:
  assumes ok: "entries_ok es" and "xattr \<noteq> - 1" and "tbl \<noteq> - 1"
    and "locator_pos tbl xattr = length pre"
    and E: "E = flat_env (pre @ cpu_to_le32 hsize @ encode_entries es
                           @ cpu_to_le32 a @ cpu_to_le32 b @ rest) tbl cap"
    and reach: "entries_size es < unat (hsize - 4)"
    and bad: "4096 < unat a \<or> 65536 < unat b
              \<or> unat (hsize - 4) < entries_size es + 8 + unat a + unat b"
    and buf: "buffer = None \<or> (\<exists>buf. buffer = Some buf \<and> kept_size E es \<le> length buf
                                   \<and> kept_size E es \<le> sz)"
  shows "fst (squashfs_listxattr E xattr buffer sz m) = Inl EIO"
proof -
  let ?tail = "cpu_to_le32 a @ cpu_to_le32 b @ rest"
  let ?img = "pre @ cpu_to_le32 hsize @ encode_entries es @ ?tail"
  obtain iter where
    st: "squashfs_xattr_iterator_start E xattr = (Inr 1, iter)"
    and sa: "stream_at ?img iter (encode_entries es @ ?tail)"
    and b: "remaining_bytes iter = hsize - 4"
    using start_flat[OF assms(2,3,4), where hsize=hsize and body="encode_entries es @ ?tail"
        and cap=cap] E by auto
  have le: "entries_size es \<le> unat (remaining_bytes iter)" using reach b by simp
  have fin: "fst (squashfs_xattr_iterator_next E (iter', m')) = Inl EIO"
    if "stream_at ?img iter' ?tail"
      and "unat (remaining_bytes iter') + entries_size es = unat (remaining_bytes iter)"
    for iter' m'
  proof -
    have "remaining_bytes iter' \<noteq> 0" using that(2) reach b by (auto simp: unat_eq_0)
    moreover have "4096 < unat a \<or> 65536 < unat b
        \<or> unat (remaining_bytes iter') < 8 + unat a + unat b"
      using bad that(2) b by auto
    ultimately show ?thesis using next_bad[OF that(1), where tbl=tbl and cap=cap and m=m'] E by simp
  qed
  have "fst (list_loop E (iter, m) 0 buffer 0 sz) = Inl EIO"
  proof (cases buffer)
    case None
    obtain iter' m' where
      lp: "list_loop E (iter, m) 0 None 0 sz = list_loop E (iter', m') (0 + kept_size E es) None 0 sz"
      and sa': "stream_at ?img iter' ?tail"
      and b': "unat (remaining_bytes iter') + entries_size es = unat (remaining_bytes iter)"
      using list_prefix_none[OF sa ok le, where tbl=tbl and cap=cap and m=m and w=0 and pos=0
          and sz=sz] E by auto
    show ?thesis unfolding None lp by (rule list_loop_error[OF fin[OF sa' b']])
  next
    case (Some bf)
    then have fit: "0 + kept_size (flat_env ?img tbl cap) es \<le> length bf"
      "kept_size (flat_env ?img tbl cap) es \<le> sz" using buf E by auto
    obtain iter' m' where
      lp: "list_loop E (iter, m) 0 (Some bf) 0 sz
           = list_loop E (iter', m') (0 + kept_size E es)
               (Some (take 0 bf @ kept_names E es @ drop (0 + kept_size E es) bf))
               (0 + kept_size E es) (sz - kept_size E es)"
      and sa': "stream_at ?img iter' ?tail"
      and b': "unat (remaining_bytes iter') + entries_size es = unat (remaining_bytes iter)"
      using list_prefix_some[OF sa ok le fit, where m=m and w=0] E by auto
    show ?thesis unfolding Some lp by (rule list_loop_error[OF fin[OF sa' b']])
  qed
  then show ?thesis by (rule listxattr_error[OF st])
qed

section \<open>What the lookup returns, short reads, short headers, locators\<close>

lemma get_loop_results:
  "fst (get_loop E s q buffer sz) = Inl ENODATA \<or> fst (get_loop E s q buffer sz) = Inl ERANGE
   \<or> (\<exists>k. fst (get_loop E s q buffer sz) = Inr k)"
proof (induction E s q buffer sz rule: get_loop.induct)
  case (1 E s name' buffer size')
  obtain err s1 where nx: "squashfs_xattr_iterator_next E s = (err, s1)"
    by (cases "squashfs_xattr_iterator_next E s")
  show ?case
  proof (cases "err = Inr 1 \<and> strncmp name' (the (name (fst s1))) (name_len (fst s1)) \<noteq> 0")
    case True
    then have eq: "get_loop E s name' buffer size' = get_loop E s1 name' buffer size'"
      by (subst get_loop.simps) (simp add: nx Let_def)
    show ?thesis unfolding eq using "1.IH"[OF nx[symmetric] refl _ refl] True by simp
  next
    case False
    then show ?thesis
      by (subst get_loop.simps, subst (2) get_loop.simps, subst (3) get_loop.simps)
         (auto simp add: nx Let_def split: option.splits)
  qed
qed

lemma getxattr_after_start:
  assumes "squashfs_xattr_iterator_start E xattr = (Inr n, iter)"
  shows "fst (squashfs_getxattr E xattr q buffer sz m) \<noteq> Inl EIO
       \<and> fst (squashfs_getxattr E xattr q buffer sz m) \<noteq> Inl ENOMEM"
  using get_loop_results[of E "(iter, m)" q buffer sz] assms
  by (auto simp add: squashfs_getxattr_def Let_def split: prod.splits)

lemma short_entry_read_returns_0:
  assumes "\<not> remaining_bytes iter < 8"
    and "read_metadata E (block iter) (offset iter) 8 = Rd_ok d b off" and "length d < 8"
  shows "fst (xattr_iterator_read_next E (iter, m)) = Inr 0"
proof -
  have "remaining_bytes iter \<noteq> 0" using assms(1) by auto
  then show ?thesis
    using assms by (simp add: xattr_iterator_read_next_def Let_def)
qed

lemma start_budget_wraps:
  assumes "squashfs_xattr_iterator_start E xattr = (Inr 1, iter)"
    and "read_metadata E (xattr_table E + scast (signed_drop_bit 13 xattr))
           (sint (xattr AND 8191)) 4 = Rd_ok d b off"
    and "le32_to_cpu d < 4"
  shows "unat (remaining_bytes iter) = unat (le32_to_cpu d) + 4294967292"
proof -
  have r: "remaining_bytes iter = le32_to_cpu d - 4"
    using assms(1,2)
    by (auto simp add: squashfs_xattr_iterator_start_def Let_def split: if_splits)
  have "unat (le32_to_cpu d) < 4" using assms(3) by (simp add: word_less_nat_alt)
  then show ?thesis
    unfolding r by (simp add: unat_sub_if_size word_size)
qed

lemma no_attributes:
  assumes "xattr = - 1 \<or> xattr_table E = - 1"
  shows "squashfs_listxattr E xattr buffer sz m = (Inr 0, buffer, m)"
    and "squashfs_getxattr E xattr q buffer sz m = (Inl ENODATA, buffer, m)"
  using assms
  by (auto simp add: squashfs_listxattr_def squashfs_getxattr_def squashfs_xattr_iterator_start_def
        squashfs_xattr_iterator_end_def xattr_iterator_release_buffer_def iter0_def kfree_def
        Let_def)

lemma locator_offset_bound: "0 \<le> sint ((xattr :: 32 word) AND 8191) \<and> sint (xattr AND 8191) < 8192"
proof -
  have "xattr AND 8191 \<le> 8191" by (rule word_and_le1)
  then have "uint (xattr AND 8191) \<le> 8191" by (simp add: word_le_def)
  then show ?thesis by (simp add: offset_nonneg)
qed

lemma locator_block_nonneg:
  assumes "(xattr :: 32 word) < 0x80000000"
  shows "(scast (signed_drop_bit 13 xattr) :: 64 word) = ucast (drop_bit 13 xattr)"
proof -
  have "unat (xattr div 2147483648) = 0"
    using assms by (simp add: unat_div word_less_nat_alt)
  then have "xattr div 2147483648 = 0" by (simp add: unat_eq_0)
  then have nb: "\<not> bit xattr 31"
    by (simp add: bit_iff_odd_drop_bit drop_bit_eq_div)
  show ?thesis
    by (rule bit_word_eqI)
       (use nb in \<open>auto simp add: bit_signed_iff bit_unsigned_iff bit_signed_drop_bit_iff
           bit_drop_bit_eq min_def not_le split: if_splits dest: bit_imp_le_length\<close>)
qed

section \<open>The two calls of a listing, and the filter of the code against the specified one\<close>

lemma listxattr_sizes_agree:
  assumes "well_formed es" and "xattr \<noteq> - 1" and "tbl \<noteq> - 1"
    and "locator_pos tbl xattr = length pre"
    and "E = flat_env (pre @ encode_set es @ rest) tbl cap"
    and "length buf = kept_size E es"
  shows "fst (squashfs_listxattr E xattr None 0 m) = Inr (kept_size E es)
       \<and> fst (snd (squashfs_listxattr E xattr None 0 m)) = None
       \<and> fst (squashfs_listxattr E xattr (Some buf) (kept_size E es) m2) = Inr (kept_size E es)
       \<and> fst (snd (squashfs_listxattr E xattr (Some buf) (kept_size E es) m2))
            = Some (kept_names E es)"
proof -
  obtain m' where a: "squashfs_listxattr E xattr None 0 m = (Inr (kept_size E es), None, m')"
    using listxattr_none[OF assms(1-5)] by blast
  obtain m'' where b: "squashfs_listxattr E xattr (Some buf) (kept_size E es) m2
      = (Inr (kept_size E es), Some (kept_names E es @ drop (kept_size E es) buf), m'')"
    using listxattr_some[OF assms(1-5), where buf=buf and sz="kept_size E es" and m=m2] assms(6)
    by auto
  show ?thesis using a b assms(6) by simp
qed

lemma privileged_spec_passes: "spec_passes True e"
  by (simp add: spec_passes_def)

lemma listxattr_privileged_spec:
  assumes "well_formed es" and "xattr \<noteq> - 1" and "tbl \<noteq> - 1"
    and "locator_pos tbl xattr = length pre"
    and "E = flat_env (pre @ encode_set es @ rest) tbl True"
  shows "fst (squashfs_listxattr E xattr None 0 m) = Inr (spec_required True es)"
proof -
  obtain m' where "squashfs_listxattr E xattr None 0 m = (Inr (kept_size E es), None, m')"
    using listxattr_none[OF assms] by blast
  then show ?thesis
    using assms(5) by (simp add: privileged_kept_size spec_required_def privileged_spec_passes)
qed

lemma cstring_no_nul: "0 \<notin> set s \<Longrightarrow> cstring s = s"
  by (auto simp add: cstring_def takeWhile_eq_all_conv)

lemma unprivileged_filter_inverted:
  assumes "\<not> capable E" and "0 \<notin> set nm"
  shows "kept E (nm, v) = (\<not> spec_passes False (nm, v))"
proof -
  have p: "cstring XATTR_TRUSTED_PREFIX = XATTR_TRUSTED_PREFIX"
    by (simp add: cstring_def XATTR_TRUSTED_PREFIX_def)
  have "(strncmp (nm @ [0]) XATTR_TRUSTED_PREFIX 8 = 0)
          = (take 8 (cstring nm) = take 8 XATTR_TRUSTED_PREFIX)"
    by (simp only: strncmp_bounded cstring_terminated p)
  also have "\<dots> = (take 8 nm = XATTR_TRUSTED_PREFIX)"
    using assms(2) by (simp add: cstring_no_nul XATTR_TRUSTED_PREFIX_def)
  finally show ?thesis
    using assms(1)
    by (simp add: kept_def filtered_def XATTR_TRUSTED_PREFIX_LEN_def spec_passes_def
          in_trusted_namespace_def)
qed

section \<open>The properties of the specification\<close>

text \<open>
  C1. Specified: an error of the iterator (I/O, format, out of memory) reaches the caller
  of Get instead of \<^verbatim>\<open>ENODATA\<close>. The code leaves its loop on every result other than 1
  and falls through to the label \<^verbatim>\<open>notfound\<close>, which overwrites \<^verbatim>\<open>err\<close>. Shown on three
  inputs: a header that leaves a budget of 5 bytes (format), a reader that fails on the
  entry (I/O), an allocator that refuses (out of memory). Each time the iterator
  reports the error and \<^verbatim>\<open>squashfs_getxattr\<close> returns \<^verbatim>\<open>ENODATA\<close>; on the first input
  \<^verbatim>\<open>squashfs_listxattr\<close> returns the error.
\<close>

theorem getxattr_drops_iterator_error:
  "(let E = flat_env [9, 0, 0, 0, 1, 2, 3, 4, 5] 0 True;
        iter = snd (squashfs_xattr_iterator_start E 0)
    in fst (squashfs_xattr_iterator_next E (iter, mem0)) = Inl EIO
       \<and> fst (squashfs_getxattr E 0 [0x61] None 0 mem0) = Inl ENODATA
       \<and> fst (squashfs_listxattr E 0 None 0 mem0) = Inl EIO)
 \<and> (let E = \<lparr>read_metadata = (\<lambda>b off len. if len = 4 then flat_read [12, 0, 0, 0] b off len
                                            else Rd_fail EIO),
               xattr_table = 0, kmalloc_ok = (\<lambda>k n. True), capable = True\<rparr>;
        iter = snd (squashfs_xattr_iterator_start E 0)
    in fst (squashfs_xattr_iterator_next E (iter, mem0)) = Inl EIO
       \<and> fst (squashfs_getxattr E 0 [0x61] None 0 mem0) = Inl ENODATA)
 \<and> (let E = \<lparr>read_metadata = flat_read [13, 0, 0, 0, 1, 0, 0, 0, 0, 0, 0, 0, 0x61],
               xattr_table = 0, kmalloc_ok = (\<lambda>k n. False), capable = True\<rparr>;
        iter = snd (squashfs_xattr_iterator_start E 0)
    in fst (squashfs_xattr_iterator_next E (iter, mem0)) = Inl ENOMEM
       \<and> fst (squashfs_getxattr E 0 [0x61] None 0 mem0) = Inl ENODATA)"
  by (simp add: eval_defs)




text \<open>
  C3. Specified: a read of the 8-byte entry header that delivers fewer bytes, without an
  I/O error, makes the step fail. In the code that read makes
  \<^verbatim>\<open>xattr_iterator_read_next\<close> return 0, the result for "no more entries". The image
  below announces a budget of 8 bytes and ends after 3 of them: the step returns 0 and
  \<^verbatim>\<open>squashfs_listxattr\<close> succeeds with 0.
\<close>

theorem short_entry_header_ends_listing:
  "(let E = flat_env [12, 0, 0, 0, 1, 2, 3] 0 True;
        iter = snd (squashfs_xattr_iterator_start E 0)
    in remaining_bytes iter = 8
       \<and> read_metadata E (block iter) (offset iter) 8 = Rd_ok [1, 2, 3] 0 7
       \<and> fst (xattr_iterator_read_next E (iter, mem0)) = Inr 0
       \<and> fst (squashfs_listxattr E 0 None 0 mem0) = Inr 0)"
  by (simp add: eval_defs)

text \<open>
  C4. Specified: a header whose \<^verbatim>\<open>total_size\<close> is below 4 is rejected no later than the
  first entry read. The code subtracts 4 from the unsigned field without a check: for
  \<^verbatim>\<open>total_size = 0\<close> the budget is \<open>2^32 - 4\<close>, the first step decodes an entry and
  \<^verbatim>\<open>squashfs_listxattr\<close> succeeds with its name.
\<close>

theorem short_header_size_wraps_budget:
  "(let E = flat_env [0, 0, 0, 0, 1, 0, 0, 0, 0, 0, 0, 0, 0x61] 0 True;
        iter = snd (squashfs_xattr_iterator_start E 0)
    in fst (squashfs_xattr_iterator_start E 0) = Inr 1
       \<and> remaining_bytes iter = 4294967292
       \<and> fst (squashfs_xattr_iterator_next E (iter, mem0)) = Inr 1
       \<and> squashfs_listxattr E 0 (Some [7, 7]) 2 mem0
           = (Inr 2, Some [0x61, 0], \<lparr>live = 0, calls = 2\<rparr>))"
  by (simp add: eval_defs)

text \<open>
  C5. Specified: an entry with \<open>name_len > 4096\<close>, with \<open>value_len > 65536\<close>, or longer than
  the remaining budget makes the List or Get call that reaches it fail with the format
  error. On the three images below (one per condition; in the first the entry is the
  second of the set) \<^verbatim>\<open>squashfs_listxattr\<close> returns the error the iterator reports,
  \<^verbatim>\<open>EIO\<close>, and \<^verbatim>\<open>squashfs_getxattr\<close> returns \<^verbatim>\<open>ENODATA\<close>.
\<close>

theorem getxattr_hides_bad_length:
  "(let E = flat_env [37, 0, 0, 0, 1, 0, 0, 0, 0, 0, 0, 0, 0x61,
                      0x89, 0x13, 0, 0, 0, 0, 0, 0, 1, 2, 3, 4, 5, 6, 7, 8, 9, 10, 11, 12, 13, 14,
                      15, 16] 0 True
    in fst (squashfs_listxattr E 0 None 0 mem0) = Inl EIO
       \<and> fst (squashfs_getxattr E 0 [0x62] None 0 mem0) = Inl ENODATA)
 \<and> (let E = flat_env [20, 0, 0, 0, 1, 0, 0, 0, 1, 0, 1, 0, 0x61, 1, 2, 3, 4, 5, 6, 7] 0 True
    in fst (squashfs_listxattr E 0 None 0 mem0) = Inl EIO
       \<and> fst (squashfs_getxattr E 0 [0x62] None 0 mem0) = Inl ENODATA)
 \<and> (let E = flat_env [16, 0, 0, 0, 3, 0, 0, 0, 2, 0, 0, 0, 0x61, 0x62, 0x63, 1, 2] 0 True
    in fst (squashfs_listxattr E 0 None 0 mem0) = Inl EIO
       \<and> fst (squashfs_getxattr E 0 [0x62] None 0 mem0) = Inl ENODATA)"
  by (simp add: eval_defs)

text \<open>
  C6. Specified: for a well-formed attribute set List with an absent buffer returns the
  sum of \<open>name_len + 1\<close> over the entries that pass the namespace filter, and List into
  a buffer of exactly that size succeeds and holds those names, each with its
  terminator. For a caller without the capability the code keeps the entries the
  filter is to skip and skips the others. On the set \<open>user.b = [2]\<close> the specified size
  is 7 and the specified content \<open>user.b\<close> with its terminator; the code returns 0 and
  writes nothing. On the set \<open>trusted.a = [1]\<close>, \<open>user.b = [2]\<close> the specified size is
  again 7; the code returns 10, and with a buffer of 7 bytes \<^verbatim>\<open>ERANGE\<close>.
\<close>

theorem unprivileged_listing_size_inverted:
  "(let es = [([0x75, 0x73, 0x65, 0x72, 0x2E, 0x62], [2])];
        E = flat_env (encode_set es) 0 False
    in well_formed es
       \<and> spec_required False es = 7
       \<and> spec_listing False es = [0x75, 0x73, 0x65, 0x72, 0x2E, 0x62, 0]
       \<and> fst (squashfs_listxattr E 0 None 0 mem0) = Inr 0
       \<and> fst (squashfs_listxattr E 0 (Some [7, 7, 7, 7, 7, 7, 7]) 7 mem0) = Inr 0
       \<and> fst (snd (squashfs_listxattr E 0 (Some [7, 7, 7, 7, 7, 7, 7]) 7 mem0))
            = Some [7, 7, 7, 7, 7, 7, 7])
 \<and> (let es = [([0x74, 0x72, 0x75, 0x73, 0x74, 0x65, 0x64, 0x2E, 0x61], [1]),
              ([0x75, 0x73, 0x65, 0x72, 0x2E, 0x62], [2])];
        E = flat_env (encode_set es) 0 False
    in well_formed es
       \<and> spec_required False es = 7
       \<and> spec_listing False es = [0x75, 0x73, 0x65, 0x72, 0x2E, 0x62, 0]
       \<and> fst (squashfs_listxattr E 0 None 0 mem0) = Inr 10
       \<and> fst (squashfs_listxattr E 0 (Some [7, 7, 7, 7, 7, 7, 7]) 7 mem0) = Inl ERANGE)"
  by (simp add: eval_defs encode_defs well_formed_def entries_ok_def spec_required_def
        spec_listing_def spec_passes_def in_trusted_namespace_def)

text \<open>
  C7. A lookup matches a stored entry exactly when the comparison bounded by the entry's
  \<open>name_len\<close> finds the query equal to the decoded name: \<^verbatim>\<open>strncmp\<close> over \<open>name_len\<close>
  bytes is that comparison, the lookup returns the value length of the first entry that
  matches under it (\<^verbatim>\<open>ENODATA\<close> when none does), and bytes of the query after the first
  \<open>name_len\<close> play no part: a query that extends the first stored name finds it.
\<close>

theorem getxattr_matches_bounded:
  assumes "well_formed es" and "xattr \<noteq> - 1" and "tbl \<noteq> - 1"
    and "locator_pos tbl xattr = length pre"
    and "E = flat_env (pre @ encode_set es @ rest) tbl cap"
  shows "(\<forall>q nm. (strncmp q (nm @ [0]) (length nm) = 0) = name_matches q nm)
       \<and> fst (squashfs_getxattr E xattr q None 0 m)
           = (case find (\<lambda>e. name_matches q (fst e)) es of
                None \<Rightarrow> Inl ENODATA | Some e \<Rightarrow> Inr (length (snd e)))
       \<and> (\<forall>nm v es' extra. es = (nm, v) # es' \<longrightarrow>
             fst (squashfs_getxattr E xattr (nm @ extra) None 0 m) = Inr (length v))"
proof (intro conjI allI impI)
  fix q nm
  show "(strncmp q (nm @ [0]) (length nm) = 0) = name_matches q nm"
    by (rule strncmp_name_matches)
next
  obtain m' where "squashfs_getxattr E xattr q None 0 m
      = (fst (get_result None 0 (find (\<lambda>e. name_matches q (fst e)) es)),
         snd (get_result None 0 (find (\<lambda>e. name_matches q (fst e)) es)), m')"
    using getxattr_wf[OF assms, where q=q and buffer=None and sz=0 and m=m] by blast
  then show "fst (squashfs_getxattr E xattr q None 0 m)
           = (case find (\<lambda>e. name_matches q (fst e)) es of
                None \<Rightarrow> Inl ENODATA | Some e \<Rightarrow> Inr (length (snd e)))"
    by (simp add: get_result_def split: option.splits)
next
  fix nm v es' extra
  assume es: "es = (nm, v) # es'"
  obtain m' where "squashfs_getxattr E xattr (nm @ extra) None 0 m
      = (fst (get_result None 0 (find (\<lambda>e. name_matches (nm @ extra) (fst e)) es)),
         snd (get_result None 0 (find (\<lambda>e. name_matches (nm @ extra) (fst e)) es)), m')"
    using getxattr_wf[OF assms, where q="nm @ extra" and buffer=None and sz=0 and m=m] by blast
  then show "fst (squashfs_getxattr E xattr (nm @ extra) None 0 m) = Inr (length v)"
    by (simp add: es get_result_def name_matches_extra)
qed

theorem getxattr_matches_bounded_witness:
  "well_formed [([0x61, 0x62, 0x63], [0x2A])] \<and> (0 :: 32 word) \<noteq> - 1 \<and> (0 :: 64 word) \<noteq> - 1
   \<and> locator_pos 0 0 = length ([] :: byte list)
   \<and> fst (squashfs_getxattr (flat_env (encode_set [([0x61, 0x62, 0x63], [0x2A])]) 0 False)
          0 [0x61, 0x62, 0x63, 0x64] None 0 mem0) = Inr 1
   \<and> fst (squashfs_getxattr (flat_env (encode_set [([0x61, 0x62, 0x63], [0x2A])]) 0 False)
          0 [0x61, 0x62] None 0 mem0) = Inl ENODATA"
proof -
  let ?es = "[([0x61, 0x62, 0x63], [0x2A])] :: entry list"
  let ?E = "flat_env (encode_set ?es) 0 False"
  have wf: "well_formed ?es"
    by (simp add: well_formed_def entries_ok_def entries_size_def entry_size_def)
  have x: "(0 :: 32 word) \<noteq> - 1" and t: "(0 :: 64 word) \<noteq> - 1" by simp_all
  have p: "locator_pos 0 0 = length ([] :: byte list)" by (simp add: locator_pos_def)
  have E: "?E = flat_env ([] @ encode_set ?es @ []) 0 False" by simp
  show ?thesis
    using getxattr_matches_bounded[OF wf x t p E, of "[0x61, 0x62, 0x63, 0x64]" mem0]
      getxattr_matches_bounded[OF wf x t p E, of "[0x61, 0x62]" mem0] wf p
    by (simp add: name_matches_def cstring_def)
qed

text \<open>
  C8. Specified: the block is the table start plus the upper 19 bits of the locator. The
  code holds the locator in an \<^verbatim>\<open>int\<close> and shifts it arithmetically: for the locator
  \<open>0x80000000\<close> and the table start \<open>0x100000\<close> the block passed to the reader is
  \<open>0xC0000\<close> (the table start minus \<open>2^18\<close>), where the upper 19 bits give \<open>0x140000\<close>.
\<close>

theorem locator_shift_is_signed:
  "(let E = \<lparr>read_metadata = (\<lambda>b off len. Rd_fail EIO), xattr_table = 0x100000,
              kmalloc_ok = (\<lambda>k n. True), capable = True\<rparr>;
        iter = snd (squashfs_xattr_iterator_start E 0x80000000)
    in block iter = 0xC0000 \<and> offset iter = 0
       \<and> xattr_table E + ucast (drop_bit 13 (0x80000000 :: 32 word)) = 0x140000)"
  by (simp add: eval_defs)

text \<open>
  C9. A step of the iterator first releases both buffers of the previous step (both
  pointers are \<^verbatim>\<open>NULL\<close> and the allocator has them back before the next entry is
  read), so that after the step the allocator holds exactly the buffers of the current
  entry besides what it held outside the iterator; and List and Get hand every buffer
  of the iterator back on each of their exits: the number of live buffers after the call
  is the number before it.
\<close>

theorem iterator_buffers_released:
  "name (fst (xattr_iterator_release_buffer s)) = None
   \<and> value_buf (fst (xattr_iterator_release_buffer s)) = None
   \<and> live (snd (xattr_iterator_release_buffer s)) = live (snd s) - held (fst s)
   \<and> squashfs_xattr_iterator_next E s
        = xattr_iterator_read_next E (xattr_iterator_release_buffer s)
   \<and> live (snd (snd (squashfs_xattr_iterator_next E s)))
        = live (snd s) - held (fst s) + held (fst (snd (squashfs_xattr_iterator_next E s)))
   \<and> live (snd (snd (squashfs_listxattr E xattr buffer sz m))) = live m
   \<and> live (snd (snd (squashfs_getxattr E xattr q buffer sz m))) = live m"
proof -
  have "live (snd (snd (squashfs_xattr_iterator_next E s)))
        = live (snd s) - held (fst s) + held (fst (snd (squashfs_xattr_iterator_next E s)))"
    using next_live[of E s] by (cases "squashfs_xattr_iterator_next E s") simp
  then show ?thesis
    by (simp add: release_live listxattr_live getxattr_live squashfs_xattr_iterator_next_def)
qed

text \<open>
  C10. A step that returns 1 takes exactly \<open>8 + name_len + value_len\<close> off the remaining
  budget, without wrap-around; no step, whatever it returns, leaves more budget than it
  found; \<open>n\<close> successive steps that each returned 1 from a budget \<open>B\<close> satisfy
  \<open>n \<le> B div 8\<close>, and among \<open>B div 8 + 1\<close> successive steps one returns something other
  than 1. (The loops of List and Get are total functions by this measure.)
\<close>

theorem budget_decreases_and_bounds_steps:
  "(squashfs_xattr_iterator_next E s = (Inr 1, s1) \<longrightarrow>
      unat (remaining_bytes (fst s1)) + (8 + name_len (fst s1) + value_len (fst s1))
        = unat (remaining_bytes (fst s)))
   \<and> unat (remaining_bytes (fst (snd (squashfs_xattr_iterator_next E s))))
        \<le> unat (remaining_bytes (fst s))
   \<and> (iter_steps E n s = Some s2 \<longrightarrow>
        n \<le> unat (remaining_bytes (fst s)) div 8
        \<and> 8 * n + unat (remaining_bytes (fst s2)) \<le> unat (remaining_bytes (fst s)))
   \<and> iter_steps E (Suc (unat (remaining_bytes (fst s)) div 8)) s = None"
proof (intro conjI impI)
  assume "squashfs_xattr_iterator_next E s = (Inr 1, s1)"
  then show "unat (remaining_bytes (fst s1)) + (8 + name_len (fst s1) + value_len (fst s1))
        = unat (remaining_bytes (fst s))"
    using next_budget[of E s s1] by simp
next
  show "unat (remaining_bytes (fst (snd (squashfs_xattr_iterator_next E s))))
        \<le> unat (remaining_bytes (fst s))"
    using next_no_underflow[of E s] by (cases "squashfs_xattr_iterator_next E s") simp
next
  assume a: "iter_steps E n s = Some s2"
  show "8 * n + unat (remaining_bytes (fst s2)) \<le> unat (remaining_bytes (fst s))"
    using iter_steps_budget[OF a] .
  then show "n \<le> unat (remaining_bytes (fst s)) div 8" by simp
next
  show "iter_steps E (Suc (unat (remaining_bytes (fst s)) div 8)) s = None"
  proof (cases "iter_steps E (Suc (unat (remaining_bytes (fst s)) div 8)) s")
    case None
    then show ?thesis .
  next
    case (Some s3)
    have "8 * Suc (unat (remaining_bytes (fst s)) div 8) \<le> unat (remaining_bytes (fst s))"
      using iter_steps_budget[OF Some] by simp
    then have False by presburger
    then show ?thesis ..
  qed
qed

theorem budget_decreases_and_bounds_steps_witness:
  "(let E = flat_env [16, 0, 0, 0, 3, 0, 0, 0, 1, 0, 0, 0, 97, 98, 99, 42] 0 True;
        s = (iter0\<lparr>offset := 4, remaining_bytes := 12\<rparr>, mem0);
        s1 = (iter0\<lparr>name_len := 3, value_len := 1, name := Some [97, 98, 99, 0],
                     value_buf := Some [42], offset := 16\<rparr>, \<lparr>live = 2, calls = 2\<rparr>)
    in squashfs_xattr_iterator_next E s = (Inr 1, s1) \<and> iter_steps E 1 s = Some s1
       \<and> unat (remaining_bytes (fst s1)) + (8 + name_len (fst s1) + value_len (fst s1))
            = unat (remaining_bytes (fst s))
       \<and> (1 :: nat) \<le> unat (remaining_bytes (fst s)) div 8)"
proof -
  let ?E = "flat_env [16, 0, 0, 0, 3, 0, 0, 0, 1, 0, 0, 0, 97, 98, 99, 42] 0 True"
  let ?s = "(iter0\<lparr>offset := 4, remaining_bytes := 12\<rparr>, mem0)"
  let ?s1 = "(iter0\<lparr>name_len := 3, value_len := 1, name := Some [97, 98, 99, 0],
                     value_buf := Some [42], offset := 16\<rparr>, \<lparr>live = 2, calls = 2\<rparr>)"
  have h1: "squashfs_xattr_iterator_next ?E ?s = (Inr 1, ?s1)"
    by (simp add: eval_defs)
  have h2: "iter_steps ?E 1 ?s = Some ?s1"
    using h1 by simp
  show ?thesis
    using budget_decreases_and_bounds_steps[of ?E ?s ?s1 1 ?s1] h1 h2
    by (simp add: Let_def)
qed

end
